theory Spec2Isabelle
  imports Main
begin

section \<open>Data model of \<open>src/lib/kmap.ts\<close>\<close>

text \<open>
  JavaScript numbers are modelled as mathematical integers (\<open>int\<close>): the solver is
  called with integer minterm indices, possibly negative or too large, and nothing in the
  pipeline leaves the range in which doubles are exact. Array indices and counters are
  \<open>nat\<close>. Strings are \<open>char list\<close>.
\<close>

record Implicant =
  bits :: string
  covered :: "int list"

record SolveOptions =
  numInputs :: int
  minterms :: "int list"
  dontCares :: "int list option"
  vars :: "string list option"

record SolveResult =
  res_numInputs :: int
  primeImplicants :: "Implicant list"
  essentialPrimeImplicants :: "Implicant list"
  selectedImplicants :: "Implicant list"
  expression :: string
  latex :: string

text \<open>
  The two ways an invocation can fail: the explicit \<open>throw new Error(...)\<close> and the
  \<open>TypeError\<close> JavaScript raises when a property of \<open>undefined\<close> is read.
\<close>

datatype error = ConfigError string | TypeError

definition DEFAULT_VARS :: "string list" where
  "DEFAULT_VARS = [''A'', ''B'', ''C'', ''D'', ''E'', ''F'']"

section \<open>JavaScript primitives used by the solver\<close>

text \<open>\<open>xs[i]\<close>: \<open>None\<close> stands for \<open>undefined\<close> (index past the end).\<close>

definition at :: "'a list \<Rightarrow> nat \<Rightarrow> 'a option" where
  "at xs i = (if i < length xs then Some (xs ! i) else None)"

text \<open>\<open>set.add(x)\<close> on a \<open>Set\<close> kept in insertion order.\<close>

definition setAdd :: "'a list \<Rightarrow> 'a \<Rightarrow> 'a list" where
  "setAdd xs x = (if x \<in> set xs then xs else xs @ [x])"

text \<open>\<open>Array.from(new Set(xs))\<close>: first occurrences, in order.\<close>

definition uniq :: "'a list \<Rightarrow> 'a list" where
  "uniq xs = foldl setAdd [] xs"

text \<open>\<open>terms.join(sep)\<close> on an array of strings.\<close>

fun join :: "string \<Rightarrow> string list \<Rightarrow> string" where
  "join sep [] = []"
| "join sep [x] = x"
| "join sep (x # y # ys) = x @ sep @ join sep (y # ys)"

text \<open>\<open>n.toString(2)\<close> for a non-negative integer.\<close>

fun binDigits :: "nat \<Rightarrow> string" where
  "binDigits n =
     (if n < 2 then [if n = 0 then CHR ''0'' else CHR ''1'']
      else binDigits (n div 2) @ [if n mod 2 = 0 then CHR ''0'' else CHR ''1''])"

declare binDigits.simps [simp del]

text \<open>\<open>n.toString(2)\<close>: a negative integer prints as a minus sign and the magnitude.\<close>

definition toString2 :: "int \<Rightarrow> string" where
  "toString2 n = (if n < 0 then CHR ''-'' # binDigits (nat (- n)) else binDigits (nat n))"

text \<open>\<open>s.padStart(width, '0')\<close>: pads on the left, never truncates.\<close>

definition padStart :: "nat \<Rightarrow> string \<Rightarrow> string" where
  "padStart width s = replicate (width - length s) (CHR ''0'') @ s"

section \<open>The functions of \<open>kmap.ts\<close>\<close>

definition toBinary :: "int \<Rightarrow> nat \<Rightarrow> string" where
  "toBinary n width = padStart width (toString2 n)"

definition countOnes :: "string \<Rightarrow> nat" where
  "countOnes s = length (filter (\<lambda>ch. ch = CHR ''1'') s)"

text \<open>
  \<open>combine\<close>: the loop runs over the characters of \<open>a\<close> with \<open>b\<close> read at the same
  index (\<open>undefined\<close> once \<open>b\<close> is exhausted); \<open>diff\<close> and \<open>out\<close> are the loop's
  variables; every \<open>return null\<close> is a \<open>None\<close>.
\<close>

fun combineFrom :: "string \<Rightarrow> string \<Rightarrow> nat \<Rightarrow> string \<Rightarrow> string option" where
  "combineFrom [] b diff out = (if diff = 1 then Some out else None)"
| "combineFrom (ca # a) b diff out =
     (let cb = (case b of [] \<Rightarrow> None | c # _ \<Rightarrow> Some c) in
      if Some ca = cb then
        (if diff > 1 then None else combineFrom a (tl b) diff (out @ [ca]))
      else if ca \<noteq> CHR ''-'' \<and> cb \<noteq> Some (CHR ''-'') then
        (if diff + 1 > 1 then None else combineFrom a (tl b) (diff + 1) (out @ [CHR ''-'']))
      else None)"

definition combine :: "string \<Rightarrow> string \<Rightarrow> string option" where
  "combine a b = combineFrom a b 0 []"

fun uniqueByBitsFrom :: "string set \<Rightarrow> Implicant list \<Rightarrow> Implicant list \<Rightarrow> Implicant list" where
  "uniqueByBitsFrom seen res [] = res"
| "uniqueByBitsFrom seen res (imp # imps) =
     (if bits imp \<in> seen then uniqueByBitsFrom seen res imps
      else uniqueByBitsFrom (insert (bits imp) seen) (res @ [imp]) imps)"

definition uniqueByBits :: "Implicant list \<Rightarrow> Implicant list" where
  "uniqueByBits imps = uniqueByBitsFrom {} [] imps"

text \<open>
  \<open>coveredBy\<close> compares the first \<open>width\<close> positions only; a position of \<open>bits\<close> past
  its end is \<open>undefined\<close>, which is neither \<open>'-'\<close> nor a character of \<open>b\<close>.
\<close>

definition coveredBy :: "string \<Rightarrow> int \<Rightarrow> nat \<Rightarrow> bool" where
  "coveredBy bs m width =
     (let b = toBinary m width in
      list_all (\<lambda>i. at bs i = Some (CHR ''-'') \<or> at bs i = at b i) [0..<width])"

definition expandCoverage :: "string \<Rightarrow> int list \<Rightarrow> nat \<Rightarrow> int list" where
  "expandCoverage bs universe width = filter (\<lambda>m. coveredBy bs m width) universe"

text \<open>
  \<open>vars[i]\<close> may be \<open>undefined\<close>: pushed as such it joins as the empty string, and
  concatenated or interpolated it prints as \<open>undefined\<close>.
\<close>

definition shown :: "string option \<Rightarrow> string" where
  "shown v = (case v of None \<Rightarrow> ''undefined'' | Some s \<Rightarrow> s)"

definition joined :: "string option \<Rightarrow> string" where
  "joined v = (case v of None \<Rightarrow> [] | Some s \<Rightarrow> s)"

definition literals :: "string \<Rightarrow> string list \<Rightarrow> string option list" where
  "literals bs vs =
     List.map_filter (\<lambda>i.
        if bs ! i = CHR ''-'' then None
        else if bs ! i = CHR ''1'' then Some (at vs i)
        else Some (Some (shown (at vs i) @ [CHR 0x27])))
       [0..<length bs]"

definition formatImplicant :: "string \<Rightarrow> string list \<Rightarrow> string" where
  "formatImplicant bs vs =
     (let out = literals bs vs in
      if length out = 0 then ''1'' else concat (map joined out))"

definition literalsLatex :: "string \<Rightarrow> string list \<Rightarrow> string option list" where
  "literalsLatex bs vs =
     List.map_filter (\<lambda>i.
        if bs ! i = CHR ''-'' then None
        else if bs ! i = CHR ''1'' then Some (at vs i)
        else Some (Some (CHR 0x5C # ''overline{'' @ shown (at vs i) @ ''}'')))
       [0..<length bs]"

definition formatImplicantLatex :: "string \<Rightarrow> string list \<Rightarrow> string" where
  "formatImplicantLatex bs vs =
     (let out = literalsLatex bs vs in
      if length out \<noteq> 0 then join '' '' (map joined out) else ''1'')"

definition isSubset :: "nat list \<Rightarrow> nat list \<Rightarrow> bool" where
  "isSubset a b = list_all (\<lambda>x. x \<in> set b) a"

text \<open>
  The inner loop of \<open>minimizeSets\<close> over \<open>unique\<close>: it stops at the first element
  that is a subset of \<open>s\<close> (\<open>dominated\<close>), and splices out every element that \<open>s\<close> is
  a subset of. Returns \<open>dominated\<close> and the array left behind.
\<close>

fun dominate :: "nat list \<Rightarrow> nat list list \<Rightarrow> bool \<times> nat list list" where
  "dominate s [] = (False, [])"
| "dominate s (u # us) =
     (if isSubset u s then (True, u # us)
      else if isSubset s u then dominate s us
      else (case dominate s us of (d, us') \<Rightarrow> (d, u # us')))"

text \<open>
  The key \<open>arr.join(',')\<close> identifies an array of numbers, so \<open>seen\<close> holds the
  arrays themselves.
\<close>

fun minimizeSetsFrom :: "nat list set \<Rightarrow> nat list list \<Rightarrow> nat list list \<Rightarrow> nat list list" where
  "minimizeSetsFrom seen unique [] = unique"
| "minimizeSetsFrom seen unique (s # ss) =
     (if s \<in> seen then minimizeSetsFrom seen unique ss
      else (case dominate s unique of
              (True, unique') \<Rightarrow> minimizeSetsFrom seen unique' ss
            | (False, unique') \<Rightarrow> minimizeSetsFrom (insert s seen) (unique' @ [s]) ss))"

definition minimizeSets :: "nat list list \<Rightarrow> nat list list" where
  "minimizeSets sets = minimizeSetsFrom {} [] (sort_key length sets)"

definition crossProduct :: "nat list list \<Rightarrow> nat list \<Rightarrow> nat list list" where
  "crossProduct solutions choices =
     concat (map (\<lambda>sol. map (\<lambda>c. sort (uniq (sol @ [c]))) choices) solutions)"

text \<open>The fold of \<open>petricksMethod\<close> over the clauses, yielding the final \<open>solutions\<close>.\<close>

fun petrickFold :: "nat list list \<Rightarrow> nat list list \<Rightarrow> nat list list" where
  "petrickFold solutions [] = solutions"
| "petrickFold solutions (choices # rest) =
     petrickFold (minimizeSets (crossProduct solutions choices)) rest"

definition petricksMethod :: "nat list list \<Rightarrow> nat list" where
  "petricksMethod coverSets =
     (case sort_key length (petrickFold [[]] coverSets) of [] \<Rightarrow> [] | s # _ \<Rightarrow> s)"

section \<open>Implicant generation\<close>

text \<open>
  A \<open>Map<number, Implicant[]>\<close> in insertion order: \<open>get(k) ?? []\<close> and \<open>set(k, arr)\<close>
  (an existing key keeps its place, a new one goes last).
\<close>

type_synonym groups = "(nat \<times> Implicant list) list"

definition groups_get :: "groups \<Rightarrow> nat \<Rightarrow> Implicant list" where
  "groups_get gs k = (case map_of gs k of None \<Rightarrow> [] | Some arr \<Rightarrow> arr)"

fun groups_set :: "groups \<Rightarrow> nat \<Rightarrow> Implicant list \<Rightarrow> groups" where
  "groups_set [] k arr = [(k, arr)]"
| "groups_set (p # ps) k arr = (if fst p = k then (k, arr) # ps else p # groups_set ps k arr)"

definition addInitial :: "nat \<Rightarrow> groups \<Rightarrow> int \<Rightarrow> groups" where
  "addInitial width gs m =
     (let bs = toBinary m width;
          ones = countOnes bs;
          imp = \<lparr>bits = bs, covered = [m]\<rparr>;
          arr = groups_get gs ones
      in groups_set gs ones (arr @ [imp]))"

definition initialGroups :: "nat \<Rightarrow> int list \<Rightarrow> groups" where
  "initialGroups width universe = foldl (addInitial width) [] universe"

text \<open>
  One round of the \<open>while\<close> loop. The three nested \<open>for\<close> loops visit the pairs
  \<open>(a, b)\<close> of \<open>groupPairs\<close> in this order; \<open>combineStep\<close> is the body, acting on
  \<open>nextGroups\<close>, \<open>taken\<close> and \<open>anyCombined\<close>. A non-null \<open>comb\<close> is truthy unless empty.
\<close>

definition groupPairs :: "groups \<Rightarrow> (Implicant \<times> Implicant) list" where
  "groupPairs currentGroups =
     (let keys = sort (map fst currentGroups) in
      concat (map (\<lambda>gi.
        concat (map (\<lambda>a. map (\<lambda>b. (a, b)) (groups_get currentGroups (keys ! (gi + 1))))
                    (groups_get currentGroups (keys ! gi))))
        [0..<length keys - 1]))"

definition combineStep ::
  "groups \<times> string set \<times> bool \<Rightarrow> Implicant \<times> Implicant \<Rightarrow> groups \<times> string set \<times> bool" where
  "combineStep st ab =
     (case st of (nextGroups, taken, anyCombined) \<Rightarrow>
        (case combine (bits (fst ab)) (bits (snd ab)) of
           None \<Rightarrow> st
         | Some comb \<Rightarrow>
             if comb = [] then st
             else
               (let ones = countOnes (filter (\<lambda>ch. ch \<noteq> CHR ''-'') comb);
                    imp = \<lparr>bits = comb,
                           covered = sort (uniq (covered (fst ab) @ covered (snd ab)))\<rparr>;
                    arr = groups_get nextGroups ones;
                    arr' = (if list_ex (\<lambda>x. bits x = bits imp) arr then arr else arr @ [imp])
                in (groups_set nextGroups ones arr',
                    insert (bits (snd ab)) (insert (bits (fst ab)) taken),
                    True))))"

definition combineRound :: "groups \<Rightarrow> groups \<times> string set \<times> bool" where
  "combineRound currentGroups = foldl combineStep ([], {}, False) (groupPairs currentGroups)"

definition nextGroupsOf :: "groups \<Rightarrow> groups" where
  "nextGroupsOf currentGroups = fst (combineRound currentGroups)"

definition takenOf :: "groups \<Rightarrow> string set" where
  "takenOf currentGroups = fst (snd (combineRound currentGroups))"

definition anyCombinedOf :: "groups \<Rightarrow> bool" where
  "anyCombinedOf currentGroups = snd (snd (combineRound currentGroups))"

definition collectPrimes :: "groups \<Rightarrow> string set \<Rightarrow> Implicant list \<Rightarrow> Implicant list" where
  "collectPrimes currentGroups taken allPrime =
     foldl (\<lambda>acc imp.
              if bits imp \<notin> taken \<and> \<not> list_ex (\<lambda>x. bits x = bits imp) acc
              then acc @ [imp] else acc)
           allPrime (concat (map snd currentGroups))"

text \<open>
  The \<open>while (true)\<close> loop: its state is \<open>currentGroups\<close> and \<open>allPrime\<close>, it leaves
  through \<open>break\<close> after a round that combined nothing.
\<close>

function combineLoop :: "groups \<Rightarrow> Implicant list \<Rightarrow> Implicant list" where
  "combineLoop currentGroups allPrime =
     (if anyCombinedOf currentGroups
      then combineLoop (nextGroupsOf currentGroups)
             (collectPrimes currentGroups (takenOf currentGroups) allPrime)
      else collectPrimes currentGroups (takenOf currentGroups) allPrime)"
  by pat_completeness auto

text \<open>
  The number of rounds of that loop in which something was combined (the rounds that
  go on to another round): the same recursion, counting.
\<close>

function mergingRounds :: "groups \<Rightarrow> nat" where
  "mergingRounds currentGroups =
     (if anyCombinedOf currentGroups then Suc (mergingRounds (nextGroupsOf currentGroups))
      else 0)"
  by pat_completeness auto

section \<open>Prime implicant chart, essential implicants, cover\<close>

definition primesOf :: "nat \<Rightarrow> int list \<Rightarrow> Implicant list \<Rightarrow> Implicant list" where
  "primesOf width mins allPrime =
     map (\<lambda>imp. \<lparr>bits = bits imp, covered = expandCoverage (bits imp) mins width\<rparr>)
         (uniqueByBits allPrime)"

text \<open>
  \<open>mToImps\<close> is only ever read through \<open>get(m) ?? []\<close>, so the \<open>Map\<close> is a function
  with default \<open>[]\<close>; the two nested loops push the index \<open>i\<close> at every \<open>m\<close> of
  \<open>primes[i].covered\<close>.
\<close>

definition mToImpsOf :: "Implicant list \<Rightarrow> int \<Rightarrow> nat list" where
  "mToImpsOf primes =
     foldl (\<lambda>mp i. foldl (\<lambda>mp' m. mp'(m := mp' m @ [i])) mp (covered (primes ! i)))
           (\<lambda>_. []) [0..<length primes]"

definition essentialOf :: "int list \<Rightarrow> (int \<Rightarrow> nat list) \<Rightarrow> nat list" where
  "essentialOf mins mToImps =
     foldl (\<lambda>essential m.
              let imps = mToImps m in
              if length imps = 1 then setAdd essential (imps ! 0) else essential)
           [] mins"

text \<open>\<open>primes[ei].covered\<close> raises a \<open>TypeError\<close> when \<open>primes[ei]\<close> is \<open>undefined\<close>.\<close>

definition coveredMintermsOf :: "Implicant list \<Rightarrow> nat list \<Rightarrow> error + int list" where
  "coveredMintermsOf primes essential =
     (if list_ex (\<lambda>ei. length primes \<le> ei) essential then Inl TypeError
      else Inr (concat (map (\<lambda>ei. covered (primes ! ei)) essential)))"

definition chosenOf :: "nat list \<Rightarrow> int list \<Rightarrow> (int \<Rightarrow> nat list) \<Rightarrow> nat list" where
  "chosenOf essential remaining mToImps =
     (if length remaining > 0
      then foldl setAdd essential (petricksMethod (map mToImps remaining))
      else essential)"

text \<open>The pipeline up to the chart, as functions of the options.\<close>

definition widthOf :: "SolveOptions \<Rightarrow> nat" where
  "widthOf opts = nat (numInputs opts)"

definition varsOf :: "SolveOptions \<Rightarrow> string list" where
  "varsOf opts =
     (case vars opts of
        Some vs \<Rightarrow> if length vs \<ge> widthOf opts then vs else take (widthOf opts) DEFAULT_VARS
      | None \<Rightarrow> take (widthOf opts) DEFAULT_VARS)"

definition mintermsOf :: "SolveOptions \<Rightarrow> int list" where
  "mintermsOf opts = sort (uniq (minterms opts))"

definition dontCaresOf :: "SolveOptions \<Rightarrow> int list" where
  "dontCaresOf opts = sort (uniq (case dontCares opts of None \<Rightarrow> [] | Some ds \<Rightarrow> ds))"

definition universeOf :: "SolveOptions \<Rightarrow> int list" where
  "universeOf opts = sort (uniq (mintermsOf opts @ dontCaresOf opts))"

definition allPrimeOf :: "SolveOptions \<Rightarrow> Implicant list" where
  "allPrimeOf opts = combineLoop (initialGroups (widthOf opts) (universeOf opts)) []"

definition primeChart :: "SolveOptions \<Rightarrow> Implicant list" where
  "primeChart opts = primesOf (widthOf opts) (mintermsOf opts) (allPrimeOf opts)"

definition essentialIndices :: "SolveOptions \<Rightarrow> nat list" where
  "essentialIndices opts = essentialOf (mintermsOf opts) (mToImpsOf (primeChart opts))"

definition remainingOf :: "SolveOptions \<Rightarrow> int list \<Rightarrow> int list" where
  "remainingOf opts coveredMinterms =
     filter (\<lambda>m. m \<notin> set coveredMinterms) (mintermsOf opts)"

text \<open>
  \<open>minimizeKMapJS\<close>. The selected implicants are read as \<open>imp.bits\<close> by the renderer,
  which raises a \<open>TypeError\<close> on an \<open>undefined\<close> element.
\<close>

definition minimizeKMapJS :: "SolveOptions \<Rightarrow> error + SolveResult" where
  "minimizeKMapJS opts =
     (if numInputs opts < 2 \<or> numInputs opts > 6
      then Inl (ConfigError ''numInputs must be between 2 and 6.'')
      else
        (let vs = varsOf opts;
             primes = primeChart opts;
             mToImps = mToImpsOf primes;
             essential = essentialIndices opts
         in case coveredMintermsOf primes essential of
              Inl e \<Rightarrow> Inl e
            | Inr coveredMinterms \<Rightarrow>
                (let remaining = remainingOf opts coveredMinterms;
                     chosen = chosenOf essential remaining mToImps;
                     picked = sort chosen
                 in if list_ex (\<lambda>i. length primes \<le> i) picked then Inl TypeError
                    else
                      (let selected = map (\<lambda>i. primes ! i) picked;
                           exprTerms = map (\<lambda>imp. formatImplicant (bits imp) vs) selected;
                           joinedTerms = join '' + '' exprTerms;
                           latexTerms = map (\<lambda>imp. formatImplicantLatex (bits imp) vs) selected
                       in Inr \<lparr>res_numInputs = numInputs opts,
                               primeImplicants = primes,
                               essentialPrimeImplicants = map (\<lambda>i. primes ! i) (sort essential),
                               selectedImplicants = selected,
                               expression = (if joinedTerms = [] then ''0'' else joinedTerms),
                               latex = ''$F = '' @ join '' + '' latexTerms @ ''$''\<rparr>))))"

section \<open>Notions used in the proofs\<close>

text \<open>The number of concrete (\<open>0\<close> or \<open>1\<close>) positions of a pattern.\<close>

definition concreteCount :: "string \<Rightarrow> nat" where
  "concreteCount s = length (filter (\<lambda>ch. ch \<noteq> CHR ''-'') s)"

text \<open>The implicants and the patterns held by the groups of a round.\<close>

definition implicantsOf :: "groups \<Rightarrow> Implicant set" where
  "implicantsOf gs = set (concat (map snd gs))"

definition patternsOf :: "groups \<Rightarrow> string set" where
  "patternsOf gs = bits ` implicantsOf gs"

text \<open>The measure of the loop: the largest number of concrete positions among the patterns.\<close>

definition maxConcrete :: "groups \<Rightarrow> nat" where
  "maxConcrete gs = Max (insert 0 (concreteCount ` patternsOf gs))"

text \<open>The successful merges among a list of pairs: left pattern, right pattern, result.\<close>

definition merges :: "(Implicant \<times> Implicant) list \<Rightarrow> (string \<times> string \<times> string) set" where
  "merges ps =
     {(bits a, bits b, c) | a b c.
        (a, b) \<in> set ps \<and> combine (bits a) (bits b) = Some c \<and> c \<noteq> []}"

text \<open>
  The sorted indices behind \<open>selected\<close> and the expression string, as functions of the
  options, for a run that does not raise.
\<close>

definition selectedIndices :: "SolveOptions \<Rightarrow> nat list" where
  "selectedIndices opts =
     (let primes = primeChart opts;
          essential = essentialIndices opts;
          coveredMinterms = concat (map (\<lambda>ei. covered (primes ! ei)) essential)
      in sort (chosenOf essential (remainingOf opts coveredMinterms) (mToImpsOf primes)))"

definition renderExpression :: "string list \<Rightarrow> Implicant list \<Rightarrow> string" where
  "renderExpression vs selected =
     (let joinedTerms = join '' + '' (map (\<lambda>imp. formatImplicant (bits imp) vs) selected)
      in if joinedTerms = [] then ''0'' else joinedTerms)"

text \<open>
  The inputs the specification calls valid: \<open>numInputs\<close> in \<open>[2,6]\<close>, and every minterm
  and don't-care in \<open>[0, 2^numInputs)\<close>.
\<close>

definition inputsInRange :: "SolveOptions \<Rightarrow> bool" where
  "inputsInRange opts =
     (2 \<le> numInputs opts \<and> numInputs opts \<le> 6 \<and>
      list_all (\<lambda>m. 0 \<le> m \<and> m < 2 ^ widthOf opts)
        (minterms opts @ (case dontCares opts of None \<Rightarrow> [] | Some ds \<Rightarrow> ds)))"

text \<open>
  The \<open>while\<close> loop run with a budget of merging rounds: \<open>None\<close> when a round still
  combines something after the budget is spent, otherwise what the loop returns.
\<close>

fun combineLoopWithin :: "nat \<Rightarrow> groups \<Rightarrow> Implicant list \<Rightarrow> Implicant list option" where
  "combineLoopWithin 0 currentGroups allPrime =
     (if anyCombinedOf currentGroups then None
      else Some (collectPrimes currentGroups (takenOf currentGroups) allPrime))"
| "combineLoopWithin (Suc n) currentGroups allPrime =
     (if anyCombinedOf currentGroups
      then combineLoopWithin n (nextGroupsOf currentGroups)
             (collectPrimes currentGroups (takenOf currentGroups) allPrime)
      else Some (collectPrimes currentGroups (takenOf currentGroups) allPrime))"

text \<open>A pattern of \<open>w\<close> positions over the alphabet \<open>0\<close>, \<open>1\<close>, \<open>-\<close>.\<close>

definition wellFormed :: "nat \<Rightarrow> string \<Rightarrow> bool" where
  "wellFormed w p \<longleftrightarrow> length p = w \<and> set p \<subseteq> {CHR ''0'', CHR ''1'', CHR ''-''}"

text \<open>
  Covers in Petrick's method: a set of indices hits a list of clauses when it holds an
  index of each of them; it is a minimal cover when no proper subset does.
\<close>

definition hitsAll :: "nat set \<Rightarrow> nat list list \<Rightarrow> bool" where
  "hitsAll S clauses \<longleftrightarrow> (\<forall>c \<in> set clauses. \<exists>i \<in> set c. i \<in> S)"

definition minimalCover :: "nat set \<Rightarrow> nat list list \<Rightarrow> bool" where
  "minimalCover S clauses \<longleftrightarrow>
     hitsAll S clauses \<and> (\<forall>T. T \<subseteq> S \<and> hitsAll T clauses \<longrightarrow> T = S)"

text \<open>The inclusion-minimal members of a family of sets.\<close>

definition minimalIn :: "nat set set \<Rightarrow> nat set set" where
  "minimalIn F = {S \<in> F. \<forall>T \<in> F. T \<subseteq> S \<longrightarrow> T = S}"

text \<open>No array of \<open>unique\<close> is contained in another one.\<close>

definition antichain :: "nat list list \<Rightarrow> bool" where
  "antichain us \<longleftrightarrow> (\<forall>u \<in> set us. \<forall>v \<in> set us. set u \<subseteq> set v \<longrightarrow> u = v)"

text \<open>
  The \<open>' + '\<close>-separated terms of a rendered string, as \<open>s.split(' + ')\<close> gives them:
  the scan cuts at each occurrence of the separator, left to right. The solver itself never
  splits a string; this is the reading of \<open>expression\<close> and \<open>latex\<close> against which their
  terms are counted and compared.
\<close>

function splitFrom :: "string \<Rightarrow> string \<Rightarrow> string \<Rightarrow> string list" where
  "splitFrom sep piece [] = [piece]"
| "splitFrom sep piece (c # cs) =
     (if sep \<noteq> [] \<and> take (length sep) (c # cs) = sep
      then piece # splitFrom sep [] (drop (length sep) (c # cs))
      else splitFrom sep (piece @ [c]) cs)"
  by pat_completeness auto
termination
  by (relation "measure (\<lambda>(sep, piece, rest). length rest)") auto

definition termsOf :: "string \<Rightarrow> string list" where
  "termsOf s = splitFrom '' + '' [] s"

section \<open>The combining loop terminates\<close>

lemma combineFrom_Some:
  "combineFrom a b d out = Some c \<Longrightarrow>
     d \<le> 1 \<and> length c = length out + length a \<and>
     concreteCount c + 1 = concreteCount out + concreteCount a + d"
proof (induction a arbitrary: b d out)
  case Nil
  then show ?case by (auto simp: concreteCount_def split: if_splits)
next
  case (Cons ca a)
  then show ?case
    by (fastforce simp: concreteCount_def Let_def split: if_splits list.splits)
qed

lemma combine_Some:
  "combine a b = Some c \<Longrightarrow> length c = length a \<and> concreteCount c + 1 = concreteCount a"
  using combineFrom_Some [of a b 0 "[]" c] by (simp add: combine_def concreteCount_def)

lemma groups_get_subset: "set (groups_get gs k) \<subseteq> implicantsOf gs"
  by (induction gs) (auto simp: groups_get_def implicantsOf_def split: option.splits if_splits)

lemma implicantsOf_groups_set:
  "set (groups_get gs k) \<subseteq> set v \<Longrightarrow> implicantsOf (groups_set gs k v) = implicantsOf gs \<union> set v"
  by (induction gs) (auto simp: groups_get_def implicantsOf_def split: option.splits if_splits)


lemma combineStep_idle:
  "combine (bits a) (bits b) = None \<or> combine (bits a) (bits b) = Some [] \<Longrightarrow>
   combineStep st (a, b) = st"
  by (auto simp: combineStep_def split: prod.splits)

lemma combineStep_merge:
  assumes "combineStep (n, t, y) (a, b) = (n', t', y')"
    and Some: "combine (bits a) (bits b) = Some c" and False: "c \<noteq> []"
  shows "patternsOf n' = insert c (patternsOf n) \<and>
         t' = insert (bits b) (insert (bits a) t) \<and> y'"
proof -
  define ones where "ones = countOnes (filter (\<lambda>ch. ch \<noteq> CHR ''-'') c)"
  define imp where "imp = \<lparr>bits = c, covered = sort (uniq (covered a @ covered b))\<rparr>"
  define arr where "arr = groups_get n ones"
  define arr' where "arr' = (if list_ex (\<lambda>x. bits x = bits imp) arr then arr else arr @ [imp])"
  have res: "n' = groups_set n ones arr'" "t' = insert (bits b) (insert (bits a) t)" "y'"
    using assms
    by (auto simp: combineStep_def Let_def ones_def imp_def arr_def arr'_def)
  have sub: "set (groups_get n ones) \<subseteq> set arr'"
    by (auto simp: arr'_def arr_def)
  have "implicantsOf n' = implicantsOf n \<union> set arr'"
    using implicantsOf_groups_set [OF sub] res(1) by simp
  moreover have "bits ` set arr' \<union> patternsOf n = insert c (patternsOf n)"
    using groups_get_subset [of n ones]
    by (auto simp: arr'_def arr_def imp_def patternsOf_def list_ex_iff)
  ultimately have "patternsOf n' = insert c (patternsOf n)"
    by (auto simp: patternsOf_def image_Un)
  with res show ?thesis by blast
qed

lemma merges_Nil [simp]: "merges [] = {}"
  by (simp add: merges_def)

lemma merges_append: "merges (ps @ qs) = merges ps \<union> merges qs"
  by (auto simp: merges_def)

lemma merges_single:
  "merges [(a, b)] =
     (case combine (bits a) (bits b) of None \<Rightarrow> {}
      | Some c \<Rightarrow> if c = [] then {} else {(bits a, bits b, c)})"
  by (auto simp: merges_def split: option.splits)

lemma foldl_combineStep:
  assumes "foldl combineStep (n, t, y) ps = (n', t', y')"
  shows "patternsOf n' = patternsOf n \<union> (\<lambda>(a, b, c). c) ` merges ps \<and>
         t' = t \<union> (\<lambda>(a, b, c). a) ` merges ps \<union> (\<lambda>(a, b, c). b) ` merges ps \<and>
         (y' \<longleftrightarrow> y \<or> merges ps \<noteq> {})"
  using assms
proof (induction ps arbitrary: n' t' y' rule: rev_induct)
  case Nil
  then show ?case by simp
next
  case (snoc p ps)
  obtain n1 t1 y1 where mid: "foldl combineStep (n, t, y) ps = (n1, t1, y1)"
    by (cases "foldl combineStep (n, t, y) ps") auto
  obtain a b where p: "p = (a, b)" by (cases p)
  from snoc.prems mid p have step: "combineStep (n1, t1, y1) (a, b) = (n', t', y')" by simp
  note ih = snoc.IH [OF mid]
  show ?case
  proof (cases "combine (bits a) (bits b) = None \<or> combine (bits a) (bits b) = Some []")
    case True
    then have "merges [(a, b)] = {}" by (auto simp: merges_single)
    moreover from combineStep_idle [OF True, of "(n1, t1, y1)"] step
    have "n' = n1 \<and> t' = t1 \<and> y' = y1" by simp
    ultimately show ?thesis using ih by (simp add: p merges_append)
  next
    case False
    then obtain c where c: "combine (bits a) (bits b) = Some c" "c \<noteq> []" by auto
    have "merges [(a, b)] = {(bits a, bits b, c)}" using c by (simp add: merges_single)
    with ih combineStep_merge [OF step c] show ?thesis by (auto simp: p merges_append)
  qed
qed

lemma groupPairs_subset:
  "(a, b) \<in> set (groupPairs gs) \<Longrightarrow> a \<in> implicantsOf gs \<and> b \<in> implicantsOf gs"
  using groups_get_subset by (fastforce simp: groupPairs_def Let_def)

lemma combineRound_facts:
  "patternsOf (nextGroupsOf gs) = (\<lambda>(a, b, c). c) ` merges (groupPairs gs)"
  "takenOf gs = (\<lambda>(a, b, c). a) ` merges (groupPairs gs) \<union> (\<lambda>(a, b, c). b) ` merges (groupPairs gs)"
  "anyCombinedOf gs \<longleftrightarrow> merges (groupPairs gs) \<noteq> {}"
proof -
  obtain n' t' y' where r: "foldl combineStep ([], {}, False) (groupPairs gs) = (n', t', y')"
    by (cases "foldl combineStep ([], {}, False) (groupPairs gs)") auto
  have e: "patternsOf [] = {}" by (simp add: patternsOf_def implicantsOf_def)
  from foldl_combineStep [OF r] e
  show "patternsOf (nextGroupsOf gs) = (\<lambda>(a, b, c). c) ` merges (groupPairs gs)"
    "takenOf gs = (\<lambda>(a, b, c). a) ` merges (groupPairs gs) \<union> (\<lambda>(a, b, c). b) ` merges (groupPairs gs)"
    "anyCombinedOf gs \<longleftrightarrow> merges (groupPairs gs) \<noteq> {}"
    by (simp_all add: nextGroupsOf_def takenOf_def anyCombinedOf_def combineRound_def r)
qed

lemma finite_patternsOf [simp]: "finite (patternsOf gs)"
  by (simp add: patternsOf_def implicantsOf_def)

lemma maxConcrete_ge: "p \<in> patternsOf gs \<Longrightarrow> concreteCount p \<le> maxConcrete gs"
  by (simp add: maxConcrete_def)

lemma merged_pattern:
  assumes "c \<in> patternsOf (nextGroupsOf gs)"
  shows "\<exists>a \<in> patternsOf gs. \<exists>b \<in> patternsOf gs. combine a b = Some c"
proof -
  from assms obtain a b where "(a, b) \<in> set (groupPairs gs)" "combine (bits a) (bits b) = Some c"
    by (auto simp: combineRound_facts(1) merges_def)
  with groupPairs_subset [of a b gs] show ?thesis
    by (auto simp: patternsOf_def)
qed

lemma maxConcrete_decreases:
  assumes "anyCombinedOf gs"
  shows "maxConcrete (nextGroupsOf gs) < maxConcrete gs"
proof -
  from assms obtain c where c: "c \<in> patternsOf (nextGroupsOf gs)"
    by (force simp: combineRound_facts)
  have below: "concreteCount q < maxConcrete gs" if "q \<in> patternsOf (nextGroupsOf gs)" for q
  proof -
    from merged_pattern [OF that] obtain a b where
      "a \<in> patternsOf gs" "combine a b = Some q" by blast
    with combine_Some [of a b q] maxConcrete_ge [of a gs] show ?thesis by simp
  qed
  from below [OF c] have "0 < maxConcrete gs" by simp
  with below show ?thesis by (auto simp: maxConcrete_def)
qed

termination combineLoop
  by (relation "measure (\<lambda>(gs, allPrime). maxConcrete gs)") (auto simp: maxConcrete_decreases)

termination mergingRounds
  by (relation "measure maxConcrete") (auto simp: maxConcrete_decreases)

declare combineLoop.simps [simp del] mergingRounds.simps [simp del]


section \<open>\<open>combine\<close>\<close>

lemma combineFrom_char:
  assumes "length a = length b"
  shows "combineFrom a b d out = Some c \<longleftrightarrow>
           (d = 1 \<and> a = b \<and> c = out @ a) \<or>
           (d = 0 \<and> (\<exists>p x y s. a = p @ x # s \<and> b = p @ y # s \<and> x \<noteq> y \<and>
                        x \<noteq> CHR ''-'' \<and> y \<noteq> CHR ''-'' \<and> c = out @ p @ CHR ''-'' # s))"
  using assms
proof (induction a b arbitrary: d out rule: list_induct2)
  case Nil
  then show ?case by auto
next
  case (Cons x xs y ys)
  show ?case
  proof (cases "x = y")
    case True
    have split: "(\<exists>p x' y' s. x # xs = p @ x' # s \<and> y # ys = p @ y' # s \<and> x' \<noteq> y' \<and>
                x' \<noteq> CHR ''-'' \<and> y' \<noteq> CHR ''-'' \<and> c = out @ p @ CHR ''-'' # s) \<longleftrightarrow>
          (\<exists>p x' y' s. xs = p @ x' # s \<and> ys = p @ y' # s \<and> x' \<noteq> y' \<and>
                x' \<noteq> CHR ''-'' \<and> y' \<noteq> CHR ''-'' \<and> c = (out @ [x]) @ p @ CHR ''-'' # s)"
      (is "?L \<longleftrightarrow> ?R")
    proof
      assume ?L
      then obtain p x' y' s where h: "x # xs = p @ x' # s" "y # ys = p @ y' # s" "x' \<noteq> y'"
        "x' \<noteq> CHR ''-''" "y' \<noteq> CHR ''-''" "c = out @ p @ CHR ''-'' # s" by blast
      with True obtain p' where "p = x # p'" by (cases p) auto
      with h show ?R by auto
    next
      assume ?R
      then obtain p x' y' s where h: "xs = p @ x' # s" "ys = p @ y' # s" "x' \<noteq> y'"
        "x' \<noteq> CHR ''-''" "y' \<noteq> CHR ''-''" "c = (out @ [x]) @ p @ CHR ''-'' # s" by blast
      then have "x # xs = (x # p) @ x' # s \<and> y # ys = (x # p) @ y' # s \<and> x' \<noteq> y' \<and>
        x' \<noteq> CHR ''-'' \<and> y' \<noteq> CHR ''-'' \<and> c = out @ (x # p) @ CHR ''-'' # s"
        using True by simp
      then show ?L by blast
    qed
    show ?thesis
    proof (cases "d > 1")
      case True
      with \<open>x = y\<close> show ?thesis by simp
    next
      case False
      with \<open>x = y\<close> have "combineFrom (x # xs) (y # ys) d out = combineFrom xs ys d (out @ [x])"
        by simp
      then show ?thesis using Cons.IH [of d "out @ [x]"] split \<open>x = y\<close> by auto
    qed
  next
    case False
    have only: "(\<exists>p x' y' s. x # xs = p @ x' # s \<and> y # ys = p @ y' # s \<and> x' \<noteq> y' \<and>
                x' \<noteq> CHR ''-'' \<and> y' \<noteq> CHR ''-'' \<and> c = out @ p @ CHR ''-'' # s) \<longleftrightarrow>
          (xs = ys \<and> x \<noteq> CHR ''-'' \<and> y \<noteq> CHR ''-'' \<and> c = out @ CHR ''-'' # xs)"
      (is "?L \<longleftrightarrow> ?R")
    proof
      assume ?L
      then obtain p x' y' s where h: "x # xs = p @ x' # s" "y # ys = p @ y' # s" "x' \<noteq> y'"
        "x' \<noteq> CHR ''-''" "y' \<noteq> CHR ''-''" "c = out @ p @ CHR ''-'' # s" by blast
      with False have "p = []" by (cases p) auto
      with h show ?R by auto
    next
      assume ?R
      then have "x # xs = [] @ x # xs \<and> y # ys = [] @ y # xs \<and> x \<noteq> y \<and>
        x \<noteq> CHR ''-'' \<and> y \<noteq> CHR ''-'' \<and> c = out @ [] @ CHR ''-'' # xs"
        using False by simp
      then show ?L by blast
    qed
    show ?thesis
    proof (cases "x \<noteq> CHR ''-'' \<and> y \<noteq> CHR ''-''")
      case concrete: True
      show ?thesis
      proof (cases "d = 0")
        case True
        with False concrete
        have "combineFrom (x # xs) (y # ys) d out = combineFrom xs ys 1 (out @ [CHR ''-''])"
          by simp
        then show ?thesis using Cons.IH [of 1 "out @ [CHR ''-'']"] only False True concrete
          by auto
      next
        case nz: False
        with False concrete have "combineFrom (x # xs) (y # ys) d out = None" by simp
        with nz False show ?thesis by simp
      qed
    next
      case dash: False
      with False have "combineFrom (x # xs) (y # ys) d out = None" by auto
      with dash only False show ?thesis by auto
    qed
  qed
qed

text \<open>
  Claim C6. For patterns \<open>a\<close> and \<open>b\<close> of equal length, \<open>combine a b\<close> is non-null
  exactly when \<open>a\<close> and \<open>b\<close> agree everywhere except at one position, where both hold a
  concrete character (so a \<open>'-'\<close> facing anything else blocks the merge); the pattern returned
  is \<open>a\<close> with that position replaced by \<open>'-'\<close>.
\<close>

theorem combine_iff_single_difference:
  assumes "length a = length b"
  shows "(combine a b \<noteq> None \<longleftrightarrow>
            (\<exists>p x y s. a = p @ x # s \<and> b = p @ y # s \<and> x \<noteq> y \<and>
                       x \<noteq> CHR ''-'' \<and> y \<noteq> CHR ''-'')) \<and>
         (\<forall>c. combine a b = Some c \<longrightarrow>
            (\<exists>p x y s. a = p @ x # s \<and> b = p @ y # s \<and> x \<noteq> y \<and>
                       x \<noteq> CHR ''-'' \<and> y \<noteq> CHR ''-'' \<and> c = a[length p := CHR ''-'']))"
proof -
  have char: "combine a b = Some c \<longleftrightarrow>
      (\<exists>p x y s. a = p @ x # s \<and> b = p @ y # s \<and> x \<noteq> y \<and>
                 x \<noteq> CHR ''-'' \<and> y \<noteq> CHR ''-'' \<and> c = p @ CHR ''-'' # s)" for c
    using combineFrom_char [OF assms, of 0 "[]" c] by (simp add: combine_def)
  have "combine a b \<noteq> None \<longleftrightarrow> (\<exists>c. combine a b = Some c)" by auto
  also have "\<dots> \<longleftrightarrow> (\<exists>p x y s. a = p @ x # s \<and> b = p @ y # s \<and> x \<noteq> y \<and>
                       x \<noteq> CHR ''-'' \<and> y \<noteq> CHR ''-'')"
    unfolding char by blast
  finally have first: "combine a b \<noteq> None \<longleftrightarrow>
     (\<exists>p x y s. a = p @ x # s \<and> b = p @ y # s \<and> x \<noteq> y \<and>
                       x \<noteq> CHR ''-'' \<and> y \<noteq> CHR ''-'')" .
  have second: "\<exists>p x y s. a = p @ x # s \<and> b = p @ y # s \<and> x \<noteq> y \<and>
                       x \<noteq> CHR ''-'' \<and> y \<noteq> CHR ''-'' \<and> c = a[length p := CHR ''-'']"
    if "combine a b = Some c" for c
  proof -
    from that char [of c] obtain p x y s where h: "a = p @ x # s" "b = p @ y # s" "x \<noteq> y"
      "x \<noteq> CHR ''-''" "y \<noteq> CHR ''-''" "c = p @ CHR ''-'' # s" by blast
    then have "c = a[length p := CHR ''-'']" by simp
    with h show ?thesis by blast
  qed
  from first second show ?thesis by blast
qed

theorem combine_iff_single_difference_witness:
  "length ''10-1'' = length ''11-1'' \<and> combine ''10-1'' ''11-1'' \<noteq> None \<and>
   (\<exists>p x y s. ''10-1'' = p @ x # s \<and> ''11-1'' = p @ y # s \<and> x \<noteq> y \<and>
       x \<noteq> CHR ''-'' \<and> y \<noteq> CHR ''-'' \<and> the (combine ''10-1'' ''11-1'') = ''10-1''[length p := CHR ''-''])"
proof -
  have len: "length ''10-1'' = length ''11-1''" by simp
  have val: "combine ''10-1'' ''11-1'' = Some ''1--1''" by (simp add: combine_def)
  from combine_iff_single_difference [OF len] val len show ?thesis
    by (metis option.sel option.distinct(1))
qed

section \<open>The configuration error\<close>

lemma coveredMintermsOf_not_config: "coveredMintermsOf primes essential \<noteq> Inl (ConfigError msg)"
  by (simp add: coveredMintermsOf_def)

text \<open>
  Claim C8. With \<open>numInputs\<close> outside \<open>[2,6]\<close> the invocation fails with the error
  carrying the message of the source and yields no result; with \<open>numInputs\<close> inside
  \<open>[2,6]\<close> no configuration error is raised.
\<close>

theorem config_error:
  "(numInputs opts < 2 \<or> numInputs opts > 6 \<longrightarrow>
      minimizeKMapJS opts = Inl (ConfigError ''numInputs must be between 2 and 6.'')) \<and>
   (2 \<le> numInputs opts \<and> numInputs opts \<le> 6 \<longrightarrow>
      (\<forall>msg. minimizeKMapJS opts \<noteq> Inl (ConfigError msg)))"
  by (auto simp: minimizeKMapJS_def Let_def coveredMintermsOf_not_config split: sum.splits)

theorem config_error_witness:
  "minimizeKMapJS \<lparr>numInputs = 1, minterms = [0], dontCares = None, vars = None\<rparr>
     = Inl (ConfigError ''numInputs must be between 2 and 6.'') \<and>
   minimizeKMapJS \<lparr>numInputs = 7, minterms = [0], dontCares = None, vars = None\<rparr>
     = Inl (ConfigError ''numInputs must be between 2 and 6.'') \<and>
   (\<forall>msg. minimizeKMapJS \<lparr>numInputs = 2, minterms = [0], dontCares = None, vars = None\<rparr>
     \<noteq> Inl (ConfigError msg))"
  using config_error [of "\<lparr>numInputs = 1, minterms = [0], dontCares = None, vars = None\<rparr>"]
    config_error [of "\<lparr>numInputs = 7, minterms = [0], dontCares = None, vars = None\<rparr>"]
    config_error [of "\<lparr>numInputs = 2, minterms = [0], dontCares = None, vars = None\<rparr>"]
  by simp


section \<open>Petrick's method\<close>

lemma set_foldl_setAdd: "set (foldl setAdd acc xs) = set acc \<union> set xs"
  by (induction xs arbitrary: acc) (auto simp: setAdd_def)

lemma distinct_foldl_setAdd: "distinct acc \<Longrightarrow> distinct (foldl setAdd acc xs)"
  by (induction xs arbitrary: acc) (auto simp: setAdd_def)

lemma set_uniq [simp]: "set (uniq xs) = set xs"
  by (simp add: uniq_def set_foldl_setAdd)

lemma distinct_uniq [simp]: "distinct (uniq xs)"
  by (simp add: uniq_def distinct_foldl_setAdd)

lemma dominate_subset: "dominate s us = (d, us') \<Longrightarrow> set us' \<subseteq> set us"
  by (induction us arbitrary: d us') (auto split: if_splits prod.splits)

lemma dominate_True: "dominate s us = (True, us') \<Longrightarrow> us' \<noteq> []"
  by (induction us arbitrary: us') (auto split: if_splits prod.splits)

lemma minimizeSetsFrom_subset:
  "set (minimizeSetsFrom seen unique ss) \<subseteq> set unique \<union> set ss"
proof (induction ss arbitrary: seen unique)
  case Nil
  then show ?case by simp
next
  case (Cons s ss)
  show ?case
  proof (cases "s \<in> seen")
    case True
    then show ?thesis using Cons.IH [of seen unique] by auto
  next
    case False
    obtain d u' where d: "dominate s unique = (d, u')" by (cases "dominate s unique")
    from dominate_subset [OF d] have sub: "set u' \<subseteq> set unique" .
    show ?thesis
    proof (cases d)
      case True
      with False d have "minimizeSetsFrom seen unique (s # ss) = minimizeSetsFrom seen u' ss"
        by simp
      with Cons.IH [of seen u'] sub show ?thesis by auto
    next
      case notd: False
      with False d have "minimizeSetsFrom seen unique (s # ss) =
          minimizeSetsFrom (insert s seen) (u' @ [s]) ss"
        by simp
      with Cons.IH [of "insert s seen" "u' @ [s]"] sub show ?thesis by auto
    qed
  qed
qed

lemma minimizeSetsFrom_nonempty:
  "unique \<noteq> [] \<or> (\<exists>s \<in> set ss. s \<notin> seen) \<Longrightarrow> minimizeSetsFrom seen unique ss \<noteq> []"
proof (induction ss arbitrary: seen unique)
  case Nil
  then show ?case by simp
next
  case (Cons s ss)
  show ?case
  proof (cases "s \<in> seen")
    case True
    with Cons.prems have "unique \<noteq> [] \<or> (\<exists>s \<in> set ss. s \<notin> seen)" by auto
    from Cons.IH [OF this] True show ?thesis by simp
  next
    case False
    obtain d u' where d: "dominate s unique = (d, u')" by (cases "dominate s unique")
    show ?thesis
    proof (cases d)
      case True
      with d have "u' \<noteq> []" by (auto dest: dominate_True)
      then have "minimizeSetsFrom seen u' ss \<noteq> []" using Cons.IH [of u' seen] by simp
      with False d True show ?thesis by simp
    next
      case notd: False
      have "minimizeSetsFrom (insert s seen) (u' @ [s]) ss \<noteq> []"
        using Cons.IH [of "u' @ [s]" "insert s seen"] by simp
      with False d notd show ?thesis by simp
    qed
  qed
qed

lemma minimizeSets_subset: "set (minimizeSets sets) \<subseteq> set sets"
  using minimizeSetsFrom_subset [of "{}" "[]" "sort_key length sets"]
  by (simp add: minimizeSets_def)

lemma minimizeSets_nonempty: "sets \<noteq> [] \<Longrightarrow> minimizeSets sets \<noteq> []"
proof -
  assume "sets \<noteq> []"
  then obtain x where "x \<in> set sets" by (cases sets) auto
  then have "\<exists>s \<in> set (sort_key length sets). s \<notin> {}" by auto
  from minimizeSetsFrom_nonempty [of "[]", OF disjI2, OF this]
  show ?thesis by (simp add: minimizeSets_def)
qed

lemma crossProduct_nonempty:
  "solutions \<noteq> [] \<Longrightarrow> choices \<noteq> [] \<Longrightarrow> crossProduct solutions choices \<noteq> []"
  by (cases solutions; cases choices) (auto simp: crossProduct_def)

lemma crossProduct_member:
  "s \<in> set (crossProduct solutions choices) \<Longrightarrow>
     distinct s \<and> (\<exists>sol \<in> set solutions. \<exists>c \<in> set choices. set s = insert c (set sol))"
  by (fastforce simp: crossProduct_def)

lemma petrickFold_invariant:
  assumes "solutions \<noteq> []" and "\<forall>c \<in> set coverSets. c \<noteq> []"
  shows "petrickFold solutions coverSets \<noteq> [] \<and>
         (\<forall>s \<in> set (petrickFold solutions coverSets).
            (\<exists>s0 \<in> set solutions. set s0 \<subseteq> set s) \<and>
            (\<forall>c \<in> set coverSets. \<exists>i \<in> set c. i \<in> set s) \<and>
            ((\<forall>s0 \<in> set solutions. distinct s0) \<longrightarrow> distinct s))"
  using assms
proof (induction coverSets arbitrary: solutions)
  case Nil
  then show ?case by auto
next
  case (Cons choices rest)
  let ?next = "minimizeSets (crossProduct solutions choices)"
  from Cons.prems have ne: "?next \<noteq> []"
    by (simp add: crossProduct_nonempty minimizeSets_nonempty)
  from Cons.prems have rest: "\<forall>c \<in> set rest. c \<noteq> []" by simp
  note ih = Cons.IH [OF ne rest]
  have mem: "distinct t \<and> (\<exists>sol \<in> set solutions. \<exists>c \<in> set choices. set t = insert c (set sol))"
    if "t \<in> set ?next" for t
    using that minimizeSets_subset crossProduct_member by blast
  have each: "(\<exists>s0 \<in> set solutions. set s0 \<subseteq> set s) \<and>
            (\<forall>c \<in> set (choices # rest). \<exists>i \<in> set c. i \<in> set s) \<and>
            ((\<forall>s0 \<in> set solutions. distinct s0) \<longrightarrow> distinct s)"
    if s: "s \<in> set (petrickFold solutions (choices # rest))" for s
  proof -
    from s have s': "s \<in> set (petrickFold ?next rest)" by simp
    with ih obtain t where t: "t \<in> set ?next" "set t \<subseteq> set s" by blast
    from mem [OF t(1)] obtain sol c where sc: "sol \<in> set solutions" "c \<in> set choices"
      "set t = insert c (set sol)" by blast
    from sc t have one: "\<exists>s0 \<in> set solutions. set s0 \<subseteq> set s" by blast
    have two: "\<forall>c \<in> set (choices # rest). \<exists>i \<in> set c. i \<in> set s"
      using sc t ih s' by auto
    have three: "(\<forall>s0 \<in> set solutions. distinct s0) \<longrightarrow> distinct s"
      using ih s' mem by blast
    from one two three show ?thesis by blast
  qed
  have "petrickFold solutions (choices # rest) \<noteq> []" using ih by simp
  with each show ?case by blast
qed

lemma petrickFold_indices:
  "s \<in> set (petrickFold solutions coverSets) \<Longrightarrow>
     set s \<subseteq> \<Union> (set ` set solutions) \<union> \<Union> (set ` set coverSets)"
proof (induction coverSets arbitrary: solutions)
  case Nil
  then show ?case by auto
next
  case (Cons choices rest)
  let ?next = "minimizeSets (crossProduct solutions choices)"
  from Cons.prems have "s \<in> set (petrickFold ?next rest)" by simp
  from Cons.IH [OF this] have "set s \<subseteq> \<Union> (set ` set ?next) \<union> \<Union> (set ` set rest)" .
  moreover have "\<Union> (set ` set ?next) \<subseteq> \<Union> (set ` set solutions) \<union> set choices"
    using minimizeSets_subset [of "crossProduct solutions choices"] crossProduct_member
    by fastforce
  ultimately show ?case by auto
qed

lemma sort_key_head_least:
  assumes "sort_key f xs = y # ys" and "x \<in> set xs"
  shows "f y \<le> f x"
proof -
  have "sorted (map f (sort_key f xs))" by (rule sorted_sort_key)
  moreover have "x \<in> set (sort_key f xs)" using assms(2) by simp
  ultimately show ?thesis using assms(1) by auto
qed

lemma petricksMethod_member:
  assumes "\<forall>c \<in> set coverSets. c \<noteq> []"
  shows "petricksMethod coverSets \<in> set (petrickFold [[]] coverSets)"
proof -
  from petrickFold_invariant [of "[[]]" coverSets] assms
  have "petrickFold [[]] coverSets \<noteq> []" by simp
  then have "sort_key length (petrickFold [[]] coverSets) \<noteq> []"
    by (metis set_sort set_empty)
  then obtain s ss where ss: "sort_key length (petrickFold [[]] coverSets) = s # ss"
    by (cases "sort_key length (petrickFold [[]] coverSets)") auto
  then have "s \<in> set (sort_key length (petrickFold [[]] coverSets))" by simp
  then have "s \<in> set (petrickFold [[]] coverSets)" by simp
  with ss show ?thesis by (simp add: petricksMethod_def)
qed

lemma petricksMethod_least:
  assumes "s \<in> set (petrickFold [[]] coverSets)"
  shows "length (petricksMethod coverSets) \<le> length s"
proof (cases "sort_key length (petrickFold [[]] coverSets)")
  case Nil
  then show ?thesis by (simp add: petricksMethod_def)
next
  case (Cons y ys)
  from sort_key_head_least [OF Cons assms] Cons show ?thesis
    by (simp add: petricksMethod_def)
qed

lemma petrickFold_distinct:
  assumes "\<forall>c \<in> set coverSets. c \<noteq> []" "s \<in> set (petrickFold [[]] coverSets)"
  shows "distinct s"
  using petrickFold_invariant [of "[[]]" coverSets] assms by simp

lemma petricksMethod_hits:
  assumes "\<forall>c \<in> set coverSets. c \<noteq> []" "c \<in> set coverSets"
  shows "\<exists>i \<in> set c. i \<in> set (petricksMethod coverSets)"
  using petrickFold_invariant [of "[[]]" coverSets] assms petricksMethod_member [OF assms(1)]
  by simp

lemma petricksMethod_subset:
  "set (petricksMethod coverSets) \<subseteq> \<Union> (set ` set coverSets)"
proof (cases "sort_key length (petrickFold [[]] coverSets)")
  case Nil
  then show ?thesis by (simp add: petricksMethod_def)
next
  case (Cons y ys)
  then have "y \<in> set (sort_key length (petrickFold [[]] coverSets))" by simp
  then have "y \<in> set (petrickFold [[]] coverSets)" by simp
  from petrickFold_indices [OF this] Cons show ?thesis
    by (simp add: petricksMethod_def)
qed


subsection \<open>The survivors of the fold are the minimal covers\<close>

lemma minimalIn_iff: "S \<in> minimalIn F \<longleftrightarrow> S \<in> F \<and> (\<forall>T \<in> F. T \<subseteq> S \<longrightarrow> T = S)"
  unfolding minimalIn_def by blast

lemma isSubset_iff: "isSubset a b \<longleftrightarrow> set a \<subseteq> set b"
  by (auto simp: isSubset_def list_all_iff)

lemma dominate_False:
  "dominate s us = (False, us') \<Longrightarrow>
     set us' = {u \<in> set us. \<not> set s \<subseteq> set u} \<and> (\<forall>u \<in> set us. \<not> set u \<subseteq> set s)"
proof (induction us arbitrary: us')
  case Nil
  then show ?case by simp
next
  case (Cons u us)
  show ?case
  proof (cases "isSubset u s")
    case True
    with Cons.prems show ?thesis by simp
  next
    case notsub: False
    show ?thesis
    proof (cases "isSubset s u")
      case True
      with notsub Cons.prems have "dominate s us = (False, us')" by simp
      from Cons.IH [OF this] notsub True show ?thesis by (auto simp: isSubset_iff)
    next
      case False
      obtain d r where r: "dominate s us = (d, r)" by (cases "dominate s us")
      with notsub False Cons.prems have "d = False" "us' = u # r" by auto
      with Cons.IH [of r] r notsub False show ?thesis by (auto simp: isSubset_iff)
    qed
  qed
qed

lemma dominate_True_cover:
  "dominate s us = (True, us') \<Longrightarrow>
     set us' \<subseteq> set us \<and> (\<exists>u \<in> set us'. set u \<subseteq> set s) \<and>
     (\<forall>u \<in> set us. u \<notin> set us' \<longrightarrow> set s \<subseteq> set u)"
proof (induction us arbitrary: us')
  case Nil
  then show ?case by simp
next
  case (Cons u us)
  show ?case
  proof (cases "isSubset u s")
    case True
    with Cons.prems show ?thesis by (auto simp: isSubset_iff)
  next
    case notsub: False
    show ?thesis
    proof (cases "isSubset s u")
      case True
      with notsub Cons.prems have "dominate s us = (True, us')" by simp
      from Cons.IH [OF this] True show ?thesis by (auto simp: isSubset_iff)
    next
      case False
      obtain d r where r: "dominate s us = (d, r)" by (cases "dominate s us")
      with notsub False Cons.prems have "d = True" "us' = u # r" by auto
      with Cons.IH [of r] r show ?thesis by auto
    qed
  qed
qed

lemma antichain_subset: "antichain us \<Longrightarrow> set vs \<subseteq> set us \<Longrightarrow> antichain vs"
  unfolding antichain_def by blast

lemma minimizeSetsFrom_invariant:
  assumes "set unique \<subseteq> P" and "seen \<subseteq> P"
    and "\<forall>p \<in> P. \<exists>u \<in> set unique. set u \<subseteq> set p" and "antichain unique"
  shows "set (minimizeSetsFrom seen unique ss) \<subseteq> P \<union> set ss \<and>
         (\<forall>p \<in> P \<union> set ss. \<exists>u \<in> set (minimizeSetsFrom seen unique ss). set u \<subseteq> set p) \<and>
         antichain (minimizeSetsFrom seen unique ss)"
  using assms
proof (induction ss arbitrary: seen unique P)
  case Nil
  then show ?case by simp
next
  case (Cons s ss)
  show ?case
  proof (cases "s \<in> seen")
    case True
    with Cons.prems(2) have "s \<in> P" by blast
    then have eq: "P \<union> set (s # ss) = P \<union> set ss" by auto
    from Cons.IH [OF Cons.prems] True show ?thesis unfolding eq by simp
  next
    case False
    obtain d u' where d: "dominate s unique = (d, u')" by (cases "dominate s unique")
    have eq: "P \<union> set (s # ss) = insert s P \<union> set ss" by auto
    show ?thesis
    proof (cases d)
      case True
      with d have dt: "dominate s unique = (True, u')" by simp
      note dc = dominate_True_cover [OF dt]
      have 1: "set u' \<subseteq> insert s P" using dc Cons.prems(1) by blast
      have 2: "seen \<subseteq> insert s P" using Cons.prems(2) by blast
      have 3: "\<forall>p \<in> insert s P. \<exists>u \<in> set u'. set u \<subseteq> set p"
      proof
        fix p assume p: "p \<in> insert s P"
        from dc obtain u0 where u0: "u0 \<in> set u'" "set u0 \<subseteq> set s" by blast
        show "\<exists>u \<in> set u'. set u \<subseteq> set p"
        proof (cases "p = s")
          case True
          with u0 show ?thesis by blast
        next
          case False
          with p Cons.prems(3) obtain u where u: "u \<in> set unique" "set u \<subseteq> set p" by blast
          show ?thesis
          proof (cases "u \<in> set u'")
            case True
            with u show ?thesis by blast
          next
            case False
            with dc u(1) have "set s \<subseteq> set u" by blast
            with u0 u(2) show ?thesis by blast
          qed
        qed
      qed
      have 4: "antichain u'" using antichain_subset [OF Cons.prems(4)] dc by blast
      from Cons.IH [OF 1 2 3 4] False dt show ?thesis unfolding eq by simp
    next
      case notd: False
      with d have df: "dominate s unique = (False, u')" by simp
      note dc = dominate_False [OF df]
      have 1: "set (u' @ [s]) \<subseteq> insert s P" using dc Cons.prems(1) by auto
      have 2: "insert s seen \<subseteq> insert s P" using Cons.prems(2) by blast
      have 3: "\<forall>p \<in> insert s P. \<exists>u \<in> set (u' @ [s]). set u \<subseteq> set p"
      proof
        fix p assume p: "p \<in> insert s P"
        show "\<exists>u \<in> set (u' @ [s]). set u \<subseteq> set p"
        proof (cases "p = s")
          case True
          then show ?thesis by auto
        next
          case False
          with p Cons.prems(3) obtain u where u: "u \<in> set unique" "set u \<subseteq> set p" by blast
          show ?thesis
          proof (cases "set s \<subseteq> set u")
            case True
            with u(2) have "set s \<subseteq> set p" by blast
            then show ?thesis by auto
          next
            case False
            with dc u(1) have "u \<in> set u'" by blast
            with u(2) show ?thesis by auto
          qed
        qed
      qed
      have sub: "set u' \<subseteq> set unique" using dc by blast
      have 4: "antichain (u' @ [s])"
        unfolding antichain_def
      proof (intro ballI impI)
        fix a b assume a: "a \<in> set (u' @ [s])" and b: "b \<in> set (u' @ [s])"
          and ab: "set a \<subseteq> set b"
        consider "a \<in> set u'" "b \<in> set u'" | "a \<in> set u'" "b = s" | "a = s" "b \<in> set u'"
          | "a = s" "b = s"
          using a b by auto
        then show "a = b"
        proof cases
          case 1
          with sub Cons.prems(4) ab show ?thesis unfolding antichain_def by blast
        next
          case 2
          with dc ab show ?thesis by blast
        next
          case 3
          with dc ab show ?thesis by blast
        next
          case 4
          then show ?thesis by simp
        qed
      qed
      from Cons.IH [OF 1 2 3 4] False df show ?thesis unfolding eq by simp
    qed
  qed
qed

text \<open>\<open>minimizeSets\<close> keeps exactly the inclusion-minimal sets of its argument.\<close>

lemma minimizeSets_minimal:
  "set ` set (minimizeSets sets) = minimalIn (set ` set sets)"
proof -
  let ?R = "minimizeSets sets"
  have inv: "set ?R \<subseteq> set sets"
    "\<forall>p \<in> set sets. \<exists>u \<in> set ?R. set u \<subseteq> set p" "antichain ?R"
    using minimizeSetsFrom_invariant [of "[]" "{}" "{}" "sort_key length sets"]
    by (simp_all add: minimizeSets_def antichain_def)
  show ?thesis
  proof (intro equalityI subsetI)
    fix S assume "S \<in> set ` set ?R"
    then obtain u where u: "u \<in> set ?R" "S = set u" by blast
    have "T = S" if T: "T \<in> set ` set sets" "T \<subseteq> S" for T
    proof -
      from T(1) obtain p where p: "p \<in> set sets" "T = set p" by blast
      with inv(2) obtain v where v: "v \<in> set ?R" "set v \<subseteq> set p" by blast
      with T(2) p(2) u(2) have "set v \<subseteq> set u" by blast
      with inv(3) u(1) v(1) have "v = u" unfolding antichain_def by blast
      with v(2) T(2) p(2) u(2) show ?thesis by blast
    qed
    moreover from u inv(1) have "S \<in> set ` set sets" by blast
    ultimately show "S \<in> minimalIn (set ` set sets)" unfolding minimalIn_iff by blast
  next
    fix S assume S: "S \<in> minimalIn (set ` set sets)"
    then have Smin: "S \<in> set ` set sets" "\<forall>T \<in> set ` set sets. T \<subseteq> S \<longrightarrow> T = S"
      unfolding minimalIn_iff by blast+
    then obtain p where p: "p \<in> set sets" "S = set p" by blast
    with inv(2) obtain u where u: "u \<in> set ?R" "set u \<subseteq> set p" by blast
    from u(1) inv(1) have "set u \<in> set ` set sets" by blast
    with Smin(2) u(2) p(2) have "set u = S" by blast
    with u(1) show "S \<in> set ` set ?R" by blast
  qed
qed

lemma hitsAll_mono: "hitsAll S cs \<Longrightarrow> S \<subseteq> T \<Longrightarrow> hitsAll T cs"
  unfolding hitsAll_def by blast

lemma hitsAll_append: "hitsAll S (cs @ ds) \<longleftrightarrow> hitsAll S cs \<and> hitsAll S ds"
  unfolding hitsAll_def by auto

lemma hitsAll_single: "hitsAll S [c] \<longleftrightarrow> (\<exists>i \<in> set c. i \<in> S)"
  unfolding hitsAll_def by simp

text \<open>A finite set hitting every clause contains an inclusion-minimal one.\<close>

lemma minimal_subcover:
  assumes "finite H" and "hitsAll H cs"
  shows "\<exists>M. M \<subseteq> H \<and> minimalCover M cs"
  using assms
proof (induction H rule: finite_psubset_induct)
  case (psubset H)
  show ?case
  proof (cases "minimalCover H cs")
    case True
    then show ?thesis by blast
  next
    case False
    with psubset.prems obtain T where T: "T \<subseteq> H" "hitsAll T cs" "T \<noteq> H"
      unfolding minimalCover_def by blast
    then have "T \<subset> H" by blast
    from psubset.IH [OF this T(2)] T(1) show ?thesis by blast
  qed
qed

lemma minimalCover_within:
  assumes "minimalCover S cs"
  shows "S \<subseteq> \<Union> (set ` set cs)"
proof -
  let ?T = "S \<inter> \<Union> (set ` set cs)"
  from assms have "hitsAll ?T cs" unfolding minimalCover_def hitsAll_def by blast
  with assms have "?T = S" unfolding minimalCover_def by blast
  then show ?thesis by blast
qed

lemma minimalCover_finite: "minimalCover S cs \<Longrightarrow> finite S"
  using minimalCover_within [of S cs] by (auto intro: finite_subset)

text \<open>
  One fold of Petrick's method on sets: extending the minimal covers of the clauses seen
  so far by one index of the next clause, and keeping the inclusion-minimal results, gives
  the minimal covers of the clauses with the next one.
\<close>

lemma petrick_step_sets:
  "minimalIn {insert c S | S c. minimalCover S done \<and> c \<in> set choices}
     = {S. minimalCover S (done @ [choices])}"
  (is "minimalIn ?F = ?M")
proof -
  have covers: "hitsAll N (done @ [choices])" if "N \<in> ?F" for N
  proof -
    from that obtain S c where "N = insert c S" "minimalCover S done" "c \<in> set choices"
      by blast
    then show ?thesis unfolding minimalCover_def hitsAll_def by auto
  qed
  have fin: "finite N" if "N \<in> ?F" for N
  proof -
    from that obtain S c where "N = insert c S" "minimalCover S done" by blast
    with minimalCover_finite [of S "done"] show ?thesis by simp
  qed
  have inF: "M \<in> ?F" if M: "minimalCover M (done @ [choices])" for M
  proof -
    from M have hit: "hitsAll M done" "\<exists>i \<in> set choices. i \<in> M"
      unfolding minimalCover_def hitsAll_append hitsAll_single by blast+
    from minimal_subcover [OF minimalCover_finite [OF M] hit(1)]
    obtain S where S: "S \<subseteq> M" "minimalCover S done" by blast
    from hit(2) obtain c where c: "c \<in> set choices" "c \<in> M" by blast
    from S(2) c(1) have "hitsAll (insert c S) (done @ [choices])"
      unfolding minimalCover_def hitsAll_def by auto
    moreover from S(1) c(2) have "insert c S \<subseteq> M" by blast
    ultimately have "insert c S = M" using M unfolding minimalCover_def by blast
    with S(2) c(1) show ?thesis by blast
  qed
  show ?thesis
  proof (intro equalityI subsetI)
    fix N assume "N \<in> minimalIn ?F"
    then have N: "N \<in> ?F" "\<forall>T \<in> ?F. T \<subseteq> N \<longrightarrow> T = N"
      unfolding minimalIn_iff by blast+
    from minimal_subcover [OF fin [OF N(1)] covers [OF N(1)]]
    obtain M where M: "M \<subseteq> N" "minimalCover M (done @ [choices])" by blast
    from inF [OF M(2)] N(2) M(1) have "M = N" by blast
    with M(2) show "N \<in> ?M" by simp
  next
    fix M assume "M \<in> ?M"
    then have M: "minimalCover M (done @ [choices])" by simp
    have "T = M" if "T \<in> ?F" "T \<subseteq> M" for T
      using covers [OF that(1)] that(2) M unfolding minimalCover_def by blast
    with inF [OF M] show "M \<in> minimalIn ?F" unfolding minimalIn_iff by blast
  qed
qed

lemma crossProduct_sets:
  "set ` set (crossProduct solutions choices)
     = {insert c S | S c. S \<in> set ` set solutions \<and> c \<in> set choices}"
proof (intro equalityI subsetI)
  fix X assume "X \<in> set ` set (crossProduct solutions choices)"
  then obtain sol c where "sol \<in> set solutions" "c \<in> set choices"
    "X = set (sort (uniq (sol @ [c])))"
    unfolding crossProduct_def by auto
  then have "X = insert c (set sol)" "set sol \<in> set ` set solutions" "c \<in> set choices"
    by auto
  then show "X \<in> {insert c S | S c. S \<in> set ` set solutions \<and> c \<in> set choices}"
    by blast
next
  fix X assume "X \<in> {insert c S | S c. S \<in> set ` set solutions \<and> c \<in> set choices}"
  then obtain sol c where sc: "sol \<in> set solutions" "c \<in> set choices" "X = insert c (set sol)"
    by blast
  then have "sort (uniq (sol @ [c])) \<in> set (crossProduct solutions choices)"
    unfolding crossProduct_def by auto
  moreover have "set (sort (uniq (sol @ [c]))) = X" using sc(3) by simp
  ultimately show "X \<in> set ` set (crossProduct solutions choices)" by blast
qed

lemma petrickFold_minimal_covers:
  "set ` set solutions = {S. minimalCover S done} \<Longrightarrow>
   set ` set (petrickFold solutions rest) = {S. minimalCover S (done @ rest)}"
proof (induction rest arbitrary: solutions "done")
  case Nil
  then show ?case by simp
next
  case (Cons choices rest)
  have "set ` set (minimizeSets (crossProduct solutions choices))
          = minimalIn {insert c S | S c. minimalCover S done \<and> c \<in> set choices}"
    unfolding minimizeSets_minimal crossProduct_sets Cons.prems by simp
  also have "\<dots> = {S. minimalCover S (done @ [choices])}" by (rule petrick_step_sets)
  finally have "set ` set (petrickFold (minimizeSets (crossProduct solutions choices)) rest)
      = {S. minimalCover S ((done @ [choices]) @ rest)}"
    by (rule Cons.IH)
  then show ?case by simp
qed

text \<open>The combinations left by the final fold are exactly the inclusion-minimal covers.\<close>

lemma petrickFold_survivors:
  "set ` set (petrickFold [[]] coverSets) = {S. minimalCover S coverSets}"
proof -
  have "set ` set [[]] = {S. minimalCover S []}"
    unfolding minimalCover_def hitsAll_def by auto
  from petrickFold_minimal_covers [OF this] show ?thesis by simp
qed

lemma petricksMethod_minimum:
  assumes ne: "\<forall>c \<in> set coverSets. c \<noteq> []" and H: "finite H" "hitsAll H coverSets"
  shows "card (set (petricksMethod coverSets)) \<le> card H"
proof -
  from minimal_subcover [OF H] obtain M where M: "M \<subseteq> H" "minimalCover M coverSets" by blast
  then have "M \<in> set ` set (petrickFold [[]] coverSets)"
    unfolding petrickFold_survivors by simp
  then obtain s where s: "s \<in> set (petrickFold [[]] coverSets)" "M = set s" by blast
  from petrickFold_distinct [OF ne s(1)]
    petrickFold_distinct [OF ne petricksMethod_member [OF ne]] petricksMethod_least [OF s(1)]
  have "card (set (petricksMethod coverSets)) \<le> card (set s)"
    by (simp add: distinct_card)
  also from M(1) H(1) s(2) have "\<dots> \<le> card H" by (simp add: card_mono)
  finally show ?thesis .
qed

section \<open>The shape of a returned result\<close>

lemma minimizeKMapJS_result:
  assumes "minimizeKMapJS opts = Inr r"
  shows "2 \<le> numInputs opts" "numInputs opts \<le> 6"
    "coveredMintermsOf (primeChart opts) (essentialIndices opts) =
       Inr (concat (map (\<lambda>ei. covered (primeChart opts ! ei)) (essentialIndices opts)))"
    "\<forall>i \<in> set (essentialIndices opts). i < length (primeChart opts)"
    "\<forall>i \<in> set (selectedIndices opts). i < length (primeChart opts)"
    "primeImplicants r = primeChart opts"
    "essentialPrimeImplicants r = map (\<lambda>i. primeChart opts ! i) (sort (essentialIndices opts))"
    "selectedImplicants r = map (\<lambda>i. primeChart opts ! i) (selectedIndices opts)"
    "expression r = renderExpression (varsOf opts) (selectedImplicants r)"
    "latex r = ''$F = '' @ join '' + ''
        (map (\<lambda>imp. formatImplicantLatex (bits imp) (varsOf opts)) (selectedImplicants r)) @ ''$''"
proof -
  from assms show n: "2 \<le> numInputs opts" "numInputs opts \<le> 6"
    by (auto simp: minimizeKMapJS_def split: if_splits)
  from assms n have ok: "\<not> list_ex (\<lambda>ei. length (primeChart opts) \<le> ei) (essentialIndices opts)"
    by (auto simp: minimizeKMapJS_def Let_def coveredMintermsOf_def split: if_splits)
  then show cm: "coveredMintermsOf (primeChart opts) (essentialIndices opts) =
       Inr (concat (map (\<lambda>ei. covered (primeChart opts ! ei)) (essentialIndices opts)))"
    by (simp add: coveredMintermsOf_def)
  from ok show "\<forall>i \<in> set (essentialIndices opts). i < length (primeChart opts)"
    by (auto simp: list_ex_iff)
  from assms n cm have sel: "\<not> list_ex (\<lambda>i. length (primeChart opts) \<le> i) (selectedIndices opts)"
    by (auto simp: minimizeKMapJS_def Let_def selectedIndices_def split: if_splits)
  then show "\<forall>i \<in> set (selectedIndices opts). i < length (primeChart opts)"
    by (auto simp: list_ex_iff)
  from assms n cm sel have r: "r = \<lparr>res_numInputs = numInputs opts,
       primeImplicants = primeChart opts,
       essentialPrimeImplicants = map (\<lambda>i. primeChart opts ! i) (sort (essentialIndices opts)),
       selectedImplicants = map (\<lambda>i. primeChart opts ! i) (selectedIndices opts),
       expression = renderExpression (varsOf opts) (map (\<lambda>i. primeChart opts ! i) (selectedIndices opts)),
       latex = ''$F = '' @ join '' + ''
        (map (\<lambda>imp. formatImplicantLatex (bits imp) (varsOf opts))
           (map (\<lambda>i. primeChart opts ! i) (selectedIndices opts))) @ ''$''\<rparr>"
    by (auto simp: minimizeKMapJS_def Let_def selectedIndices_def renderExpression_def)
  show "primeImplicants r = primeChart opts"
    "essentialPrimeImplicants r = map (\<lambda>i. primeChart opts ! i) (sort (essentialIndices opts))"
    "selectedImplicants r = map (\<lambda>i. primeChart opts ! i) (selectedIndices opts)"
    "expression r = renderExpression (varsOf opts) (selectedImplicants r)"
    "latex r = ''$F = '' @ join '' + ''
        (map (\<lambda>imp. formatImplicantLatex (bits imp) (varsOf opts)) (selectedImplicants r)) @ ''$''"
    by (simp_all add: r)
qed

text \<open>
  Claim C10. When the selected implicant set of a returned result is empty (as for
  \<open>minterms = []\<close>, \<open>dontCares = []\<close>), \<open>expression\<close> is the string \<open>0\<close> while
  \<open>latex\<close> is exactly \<open>$F = $\<close>, with no term standing for the \<open>0\<close>.
\<close>

theorem empty_selection_rendering:
  assumes "minimizeKMapJS opts = Inr r" and "selectedImplicants r = []"
  shows "expression r = ''0'' \<and> latex r = ''$F = $''"
  using minimizeKMapJS_result(9,10) [OF assms(1)] assms(2)
  by (simp add: renderExpression_def)

theorem empty_selection_rendering_witness:
  "expression \<lparr>res_numInputs = 3, primeImplicants = [], essentialPrimeImplicants = [],
         selectedImplicants = [], expression = ''0'', latex = ''$F = $''\<rparr> = ''0'' \<and>
   latex \<lparr>res_numInputs = 3, primeImplicants = [], essentialPrimeImplicants = [],
         selectedImplicants = [], expression = ''0'', latex = ''$F = $''\<rparr> = ''$F = $'' \<and>
   minimizeKMapJS \<lparr>numInputs = 3, minterms = [], dontCares = Some [], vars = None\<rparr>
   = Inr \<lparr>res_numInputs = 3, primeImplicants = [], essentialPrimeImplicants = [],
         selectedImplicants = [], expression = ''0'', latex = ''$F = $''\<rparr>"
proof -
  have run: "minimizeKMapJS \<lparr>numInputs = 3, minterms = [], dontCares = Some [], vars = None\<rparr>
   = Inr \<lparr>res_numInputs = 3, primeImplicants = [], essentialPrimeImplicants = [],
         selectedImplicants = [], expression = ''0'', latex = ''$F = $''\<rparr>"
    by code_simp
  have sel: "selectedImplicants \<lparr>res_numInputs = 3, primeImplicants = [], essentialPrimeImplicants = [],
         selectedImplicants = [], expression = ''0'', latex = ''$F = $''\<rparr> = []"
    by simp
  from empty_selection_rendering [OF run sel] run show ?thesis by blast
qed

section \<open>Rendering\<close>

lemma all_dashes:
  assumes "concreteCount bs = 0" and "i < length bs"
  shows "bs ! i = CHR ''-''"
proof -
  from assms(1) have "filter (\<lambda>ch. ch \<noteq> CHR ''-'') bs = []"
    by (simp add: concreteCount_def)
  then have "\<forall>ch \<in> set bs. ch = CHR ''-''" by (simp add: filter_empty_conv)
  with assms(2) show ?thesis by simp
qed

lemma no_concrete_bits:
  assumes "concreteCount bs = 0"
  shows "formatImplicant bs vs = ''1''" "formatImplicantLatex bs vs = ''1''"
proof -
  have "literals bs vs = []"
    using all_dashes [OF assms]
    by (auto simp: literals_def map_filter_def filter_empty_conv)
  then show "formatImplicant bs vs = ''1''" by (simp add: formatImplicant_def)
  have "literalsLatex bs vs = []"
    using all_dashes [OF assms]
    by (auto simp: literalsLatex_def map_filter_def filter_empty_conv)
  then show "formatImplicantLatex bs vs = ''1''" by (simp add: formatImplicantLatex_def)
qed

subsection \<open>Splitting a rendered string into its terms\<close>

lemma splitFrom_no_match:
  "take (length sep) (c # cs) \<noteq> sep \<Longrightarrow>
     splitFrom sep piece (c # cs) = splitFrom sep (piece @ [c]) cs"
  by simp

lemma splitFrom_match:
  "sep \<noteq> [] \<Longrightarrow> splitFrom sep piece (sep @ r) = piece # splitFrom sep [] r"
  by (cases sep) auto

declare splitFrom.simps(2) [simp del]

lemma split_skip:
  assumes "CHR ''+'' \<notin> set t" and "rest = [] \<or> (\<exists>r. rest = '' + '' @ r)"
  shows "splitFrom '' + '' piece (t @ rest) = splitFrom '' + '' (piece @ t) rest"
  using assms
proof (induction t arbitrary: piece)
  case Nil
  then show ?case by simp
next
  case (Cons c t)
  have "take (length '' + '') (c # (t @ rest)) \<noteq> '' + ''"
  proof (cases t)
    case Nil
    with Cons.prems(2) show ?thesis by auto
  next
    case (Cons d t')
    with Cons.prems(1) have "d \<noteq> CHR ''+''" by auto
    with Cons show ?thesis by auto
  qed
  from splitFrom_no_match [OF this]
  have "splitFrom '' + '' piece ((c # t) @ rest) = splitFrom '' + '' (piece @ [c]) (t @ rest)"
    by simp
  also have "\<dots> = splitFrom '' + '' ((piece @ [c]) @ t) rest"
    using Cons.IH [of "piece @ [c]"] Cons.prems by simp
  finally show ?case by simp
qed

lemma split_at_separator:
  "splitFrom '' + '' piece ('' + '' @ r) = piece # splitFrom '' + '' [] r"
  by (rule splitFrom_match) simp

lemma split_join:
  assumes "ts \<noteq> []" and "\<forall>t \<in> set ts. CHR ''+'' \<notin> set t"
  shows "splitFrom '' + '' piece (join '' + '' ts) = (piece @ hd ts) # tl ts"
  using assms
proof (induction ts arbitrary: piece)
  case Nil
  then show ?case by simp
next
  case (Cons t ts)
  show ?case
  proof (cases ts)
    case Nil
    from Cons.prems(2) have "CHR ''+'' \<notin> set t" by simp
    from split_skip [OF this, of "[]" piece] Nil show ?thesis by simp
  next
    case (Cons u us)
    from Cons.prems(2) have t: "CHR ''+'' \<notin> set t" by simp
    have "splitFrom '' + '' piece (join '' + '' (t # ts))
        = splitFrom '' + '' piece (t @ ('' + '' @ join '' + '' ts))"
      using Cons by simp
    also have "\<dots> = splitFrom '' + '' (piece @ t) ('' + '' @ join '' + '' ts)"
      by (rule split_skip [OF t]) blast
    also have "\<dots> = (piece @ t) # splitFrom '' + '' [] (join '' + '' ts)"
      by (rule split_at_separator)
    also have "splitFrom '' + '' [] (join '' + '' ts) = ([] @ hd ts) # tl ts"
      using Cons.IH [of "[]"] Cons.prems(2) Cons by simp
    finally show ?thesis using Cons by simp
  qed
qed

lemma termsOf_join:
  "ts \<noteq> [] \<Longrightarrow> \<forall>t \<in> set ts. CHR ''+'' \<notin> set t \<Longrightarrow> termsOf (join '' + '' ts) = ts"
  using split_join [of ts "[]"] by (simp add: termsOf_def)

lemma join_empty: "join sep ts = [] \<Longrightarrow> sep \<noteq> [] \<Longrightarrow> length ts \<le> 1"
proof (cases ts)
  case Nil
  then show ?thesis by simp
next
  case (Cons t us)
  assume "join sep ts = []" "sep \<noteq> []"
  with Cons show ?thesis by (cases us) auto
qed

lemma set_join: "set (join sep xs) \<subseteq> set sep \<union> \<Union> (set ` set xs)"
  by (induction sep xs rule: join.induct) auto

lemma set_map_filter_mem:
  "y \<in> set (List.map_filter f xs) \<Longrightarrow> \<exists>x \<in> set xs. f x = Some y"
  by (auto simp: map_filter_def)

lemma at_mem: "at vs i = Some v \<Longrightarrow> v \<in> set vs"
  by (auto simp: at_def split: if_splits)

lemma no_plus_shown:
  assumes "\<forall>v \<in> set vs. CHR ''+'' \<notin> set v"
  shows "CHR ''+'' \<notin> set (shown (at vs i))" "CHR ''+'' \<notin> set (joined (at vs i))"
proof -
  show "CHR ''+'' \<notin> set (shown (at vs i))"
  proof (cases "at vs i")
    case None
    then show ?thesis by (simp add: shown_def)
  next
    case (Some v)
    with at_mem [OF Some] assms show ?thesis by (simp add: shown_def)
  qed
  show "CHR ''+'' \<notin> set (joined (at vs i))"
  proof (cases "at vs i")
    case None
    then show ?thesis by (simp add: joined_def)
  next
    case (Some v)
    with at_mem [OF Some] assms show ?thesis by (simp add: joined_def)
  qed
qed

lemma no_plus_formatImplicant:
  assumes "\<forall>v \<in> set vs. CHR ''+'' \<notin> set v"
  shows "CHR ''+'' \<notin> set (formatImplicant bs vs)"
proof -
  have "CHR ''+'' \<notin> set (joined l)" if "l \<in> set (literals bs vs)" for l
  proof -
    from that have "\<exists>i. l = at vs i \<or> l = Some (shown (at vs i) @ [CHR 0x27])"
      unfolding literals_def by (auto dest!: set_map_filter_mem split: if_splits)
    then obtain i where
      "l = at vs i \<or> l = Some (shown (at vs i) @ [CHR 0x27])" by blast
    with no_plus_shown [OF assms, of i] show ?thesis by (auto simp: joined_def)
  qed
  then show ?thesis by (auto simp: formatImplicant_def Let_def)
qed

lemma no_plus_formatImplicantLatex:
  assumes "\<forall>v \<in> set vs. CHR ''+'' \<notin> set v"
  shows "CHR ''+'' \<notin> set (formatImplicantLatex bs vs)"
proof -
  have lit: "CHR ''+'' \<notin> set (joined l)" if "l \<in> set (literalsLatex bs vs)" for l
  proof -
    from that
    have "\<exists>i. l = at vs i \<or> l = Some (CHR 0x5C # ''overline{'' @ shown (at vs i) @ ''}'')"
      unfolding literalsLatex_def by (auto dest!: set_map_filter_mem split: if_splits)
    then obtain i where
      "l = at vs i \<or> l = Some (CHR 0x5C # ''overline{'' @ shown (at vs i) @ ''}'')"
      by blast
    with no_plus_shown [OF assms, of i] show ?thesis by (auto simp: joined_def)
  qed
  have "CHR ''+'' \<notin> set (join '' '' (map joined (literalsLatex bs vs)))"
    using set_join [of "'' ''" "map joined (literalsLatex bs vs)"] lit by auto
  then show ?thesis by (auto simp: formatImplicantLatex_def Let_def)
qed

text \<open>
  Claim C9, as amended. When no variable name in effect contains the character \<open>+\<close>,
  the returned \<open>expression\<close> and the body of \<open>latex\<close> (what stands between \<open>$F = \<close>
  and the closing \<open>$\<close>) have the same number of \<open>' + '\<close>-separated terms. With a
  non-empty selection the \<open>k\<close>-th term of the latex body renders the \<open>k\<close>-th selected
  implicant, and so does the \<open>k\<close>-th term of the expression unless the expression is the
  fallback \<open>0\<close>. An implicant without concrete bits renders as \<open>1\<close> in both, and an empty
  selection gives the expression \<open>0\<close>.
\<close>

theorem rendering_terms_aligned:
  assumes "minimizeKMapJS opts = Inr r"
    and "\<forall>v \<in> set (varsOf opts). CHR ''+'' \<notin> set v"
  shows "\<exists>body. latex r = ''$F = '' @ body @ ''$'' \<and>
           length (termsOf (expression r)) = length (termsOf body) \<and>
           (selectedImplicants r \<noteq> [] \<longrightarrow>
              termsOf body =
                map (\<lambda>imp. formatImplicantLatex (bits imp) (varsOf opts)) (selectedImplicants r) \<and>
              (expression r \<noteq> ''0'' \<longrightarrow>
                 termsOf (expression r) =
                   map (\<lambda>imp. formatImplicant (bits imp) (varsOf opts)) (selectedImplicants r))) \<and>
           (\<forall>imp \<in> set (selectedImplicants r).
              concreteCount (bits imp) = 0 \<longrightarrow>
                formatImplicant (bits imp) (varsOf opts) = ''1'' \<and>
                formatImplicantLatex (bits imp) (varsOf opts) = ''1'') \<and>
           (selectedImplicants r = [] \<longrightarrow> expression r = ''0'')"
proof -
  let ?e = "map (\<lambda>imp. formatImplicant (bits imp) (varsOf opts)) (selectedImplicants r)"
  let ?l = "map (\<lambda>imp. formatImplicantLatex (bits imp) (varsOf opts)) (selectedImplicants r)"
  let ?body = "join '' + '' ?l"
  note shape = minimizeKMapJS_result(9,10) [OF assms(1)]
  have expr: "expression r = (if join '' + '' ?e = [] then ''0'' else join '' + '' ?e)"
    using shape(1) by (simp add: renderExpression_def Let_def)
  have ltx: "latex r = ''$F = '' @ ?body @ ''$''" using shape(2) by simp
  have eplus: "\<forall>t \<in> set ?e. CHR ''+'' \<notin> set t"
    using no_plus_formatImplicant [OF assms(2)] by auto
  have lplus: "\<forall>t \<in> set ?l. CHR ''+'' \<notin> set t"
    using no_plus_formatImplicantLatex [OF assms(2)] by auto
  have zero: "termsOf ''0'' = [''0'']" by code_simp
  have none: "termsOf [] = [[]]" by code_simp
  have lterms: "termsOf ?body = ?l" if "selectedImplicants r \<noteq> []"
    using that termsOf_join [OF _ lplus] by simp
  have eterms: "termsOf (expression r) = ?e"
    if "selectedImplicants r \<noteq> []" "expression r \<noteq> ''0''"
  proof -
    from that(2) expr have "expression r = join '' + '' ?e" by (auto split: if_splits)
    with that(1) termsOf_join [OF _ eplus] show ?thesis by simp
  qed
  have count: "length (termsOf (expression r)) = length (termsOf ?body)"
  proof (cases "selectedImplicants r = []")
    case True
    with expr zero none show ?thesis by simp
  next
    case False
    show ?thesis
    proof (cases "join '' + '' ?e = []")
      case True
      from join_empty [OF True] False have "length (selectedImplicants r) = 1"
        by (cases "selectedImplicants r") auto
      with True expr zero lterms [OF False] show ?thesis by simp
    next
      case nonempty: False
      with expr have "expression r = join '' + '' ?e" by simp
      with False termsOf_join [OF _ eplus] lterms [OF False] show ?thesis by simp
    qed
  qed
  have ones: "\<forall>imp \<in> set (selectedImplicants r).
              concreteCount (bits imp) = 0 \<longrightarrow>
                formatImplicant (bits imp) (varsOf opts) = ''1'' \<and>
                formatImplicantLatex (bits imp) (varsOf opts) = ''1''"
    by (simp add: no_concrete_bits)
  have empty: "selectedImplicants r = [] \<longrightarrow> expression r = ''0''"
    using expr by simp
  from ltx count lterms eterms ones empty show ?thesis by blast
qed

theorem rendering_terms_aligned_witness:
  "\<exists>r. minimizeKMapJS \<lparr>numInputs = 3, minterms = [3, 6, 7], dontCares = None, vars = None\<rparr>
          = Inr r \<and>
     expression r = ''BC + AB'' \<and> latex r = ''$F = B C + A B$'' \<and>
     length (selectedImplicants r) = 2 \<and>
     termsOf (expression r) = [''BC'', ''AB''] \<and>
     termsOf ''B C + A B'' = [''B C'', ''A B''] \<and>
     termsOf (expression r) =
       map (\<lambda>imp. formatImplicant (bits imp)
              (varsOf \<lparr>numInputs = 3, minterms = [3, 6, 7], dontCares = None, vars = None\<rparr>))
           (selectedImplicants r) \<and>
     (\<exists>body. latex r = ''$F = '' @ body @ ''$'' \<and>
        length (termsOf (expression r)) = length (termsOf body) \<and>
        termsOf body =
          map (\<lambda>imp. formatImplicantLatex (bits imp)
                 (varsOf \<lparr>numInputs = 3, minterms = [3, 6, 7], dontCares = None, vars = None\<rparr>))
              (selectedImplicants r))"
proof -
  let ?opts = "\<lparr>numInputs = 3, minterms = [3, 6, 7], dontCares = None, vars = None\<rparr>"
  have "\<not> isl (minimizeKMapJS ?opts)" by code_simp
  then obtain r where run: "minimizeKMapJS ?opts = Inr r"
    by (cases "minimizeKMapJS ?opts") auto
  have names: "\<forall>v \<in> set (varsOf ?opts). CHR ''+'' \<notin> set v"
    by (simp add: varsOf_def widthOf_def DEFAULT_VARS_def)
  have "expression (projr (minimizeKMapJS ?opts)) = ''BC + AB''" by code_simp
  with run have e: "expression r = ''BC + AB''" by simp
  have "latex (projr (minimizeKMapJS ?opts)) = ''$F = B C + A B$''" by code_simp
  with run have l: "latex r = ''$F = B C + A B$''" by simp
  have "length (selectedImplicants (projr (minimizeKMapJS ?opts))) = 2" by code_simp
  with run have n: "length (selectedImplicants r) = 2" by simp
  then have ne: "selectedImplicants r \<noteq> []" by auto
  from e have nz: "expression r \<noteq> ''0''" by simp
  have te: "termsOf ''BC + AB'' = [''BC'', ''AB'']" by code_simp
  have tl: "termsOf ''B C + A B'' = [''B C'', ''A B'']" by code_simp
  from rendering_terms_aligned [OF run names] ne nz e te tl l n run
  show ?thesis by auto
qed

text \<open>
  The claim as stated fails on an accepted input with a variable named \<open>+\<close>: with
  \<open>numInputs = 3\<close>, \<open>minterms = [7]\<close> and \<open>vars = ['A', '+', 'B']\<close> the expression
  \<open>A+B\<close> is one term while the latex body \<open>A + B\<close> splits into two.
\<close>

theorem rendering_terms_counterexample:
  "map_sum id expression
     (minimizeKMapJS \<lparr>numInputs = 3, minterms = [7], dontCares = None,
                      vars = Some [''A'', ''+'', ''B'']\<rparr>) = Inr ''A+B'' \<and>
   map_sum id latex
     (minimizeKMapJS \<lparr>numInputs = 3, minterms = [7], dontCares = None,
                      vars = Some [''A'', ''+'', ''B'']\<rparr>) = Inr ''$F = A + B$'' \<and>
   termsOf ''A+B'' = [''A+B''] \<and> termsOf ''A + B'' = [''A'', ''B''] \<and>
   length (termsOf ''A+B'') \<noteq> length (termsOf ''A + B'')"
  by code_simp

section \<open>Selection by Petrick's method\<close>

lemma chosenOf_Nil: "chosenOf essential [] mToImps = essential"
  by (simp add: chosenOf_def)

text \<open>
  Claim C4. For clauses that are all non-empty, \<open>petricksMethod\<close> returns a set of indices
  that contains an index of every clause. It is one of the combinations left by the final
  fold, and these are exactly the inclusion-minimal covers of the clauses (with or without
  empty clauses). No combination left by the final fold has fewer elements, and neither has
  any finite set of indices that hits every clause. When no minterm remains after the
  essential implicants, nothing is added to the essential set, and the selected implicants
  are the essential ones.
\<close>

theorem petricks_method_selection:
  "((\<forall>c \<in> set coverSets. c \<noteq> []) \<longrightarrow>
      (\<forall>c \<in> set coverSets. \<exists>i \<in> set c. i \<in> set (petricksMethod coverSets)) \<and>
      petricksMethod coverSets \<in> set (petrickFold [[]] coverSets) \<and>
      (\<forall>s \<in> set (petrickFold [[]] coverSets).
          card (set (petricksMethod coverSets)) \<le> card (set s)) \<and>
      minimalCover (set (petricksMethod coverSets)) coverSets \<and>
      (\<forall>H. finite H \<and> hitsAll H coverSets \<longrightarrow>
          card (set (petricksMethod coverSets)) \<le> card H)) \<and>
   set ` set (petrickFold [[]] coverSets) = {S. minimalCover S coverSets} \<and>
   (minimizeKMapJS opts = Inr r \<and>
    coveredMintermsOf (primeChart opts) (essentialIndices opts) = Inr coveredMinterms \<and>
    remainingOf opts coveredMinterms = [] \<longrightarrow>
      chosenOf (essentialIndices opts) (remainingOf opts coveredMinterms)
               (mToImpsOf (primeChart opts)) = essentialIndices opts \<and>
      selectedImplicants r = essentialPrimeImplicants r)"
proof (intro conjI impI)
  assume ne: "\<forall>c \<in> set coverSets. c \<noteq> []"
  show "\<forall>c \<in> set coverSets. \<exists>i \<in> set c. i \<in> set (petricksMethod coverSets)"
    using petricksMethod_hits [OF ne] by blast
  show mem: "petricksMethod coverSets \<in> set (petrickFold [[]] coverSets)"
    by (rule petricksMethod_member [OF ne])
  show "\<forall>s \<in> set (petrickFold [[]] coverSets).
          card (set (petricksMethod coverSets)) \<le> card (set s)"
  proof
    fix s assume s: "s \<in> set (petrickFold [[]] coverSets)"
    from petrickFold_distinct [OF ne s] petrickFold_distinct [OF ne mem] petricksMethod_least [OF s]
    show "card (set (petricksMethod coverSets)) \<le> card (set s)"
      by (simp add: distinct_card)
  qed
  from mem have "set (petricksMethod coverSets) \<in> set ` set (petrickFold [[]] coverSets)"
    by blast
  then show "minimalCover (set (petricksMethod coverSets)) coverSets"
    unfolding petrickFold_survivors by simp
  show "\<forall>H. finite H \<and> hitsAll H coverSets \<longrightarrow>
          card (set (petricksMethod coverSets)) \<le> card H"
    using petricksMethod_minimum [OF ne] by blast
next
  show "set ` set (petrickFold [[]] coverSets) = {S. minimalCover S coverSets}"
    by (rule petrickFold_survivors)
next
  assume h: "minimizeKMapJS opts = Inr r \<and>
    coveredMintermsOf (primeChart opts) (essentialIndices opts) = Inr coveredMinterms \<and>
    remainingOf opts coveredMinterms = []"
  then show "chosenOf (essentialIndices opts) (remainingOf opts coveredMinterms)
               (mToImpsOf (primeChart opts)) = essentialIndices opts"
    by (simp add: chosenOf_Nil)
  from h minimizeKMapJS_result(3) [of opts r]
  have cm: "coveredMinterms = concat (map (\<lambda>ei. covered (primeChart opts ! ei)) (essentialIndices opts))"
    by simp
  with h have "selectedIndices opts = sort (essentialIndices opts)"
    by (simp add: selectedIndices_def Let_def chosenOf_Nil)
  with h minimizeKMapJS_result(7,8) [of opts r]
  show "selectedImplicants r = essentialPrimeImplicants r" by simp
qed

theorem petricks_method_selection_witness:
  "[] \<notin> set [[0, 1], [1, 2::nat]] \<and>
   petricksMethod [[0, 1], [1, 2]] = [1] \<and>
   petrickFold [[]] [[0, 1], [1, 2]] = [[1], [0, 2]] \<and>
   list_all (\<lambda>c. \<exists>i \<in> set c. i \<in> set (petricksMethod [[0, 1], [1, 2]])) [[0, 1], [1, 2]] \<and>
   petricksMethod [[0, 1], [1, 2]] \<in> set (petrickFold [[]] [[0, 1], [1, 2]]) \<and>
   list_all (\<lambda>s. card (set (petricksMethod [[0, 1], [1, 2]])) \<le> card (set s))
     (petrickFold [[]] [[0, 1], [1, 2]]) \<and>
   minimalCover (set (petricksMethod [[0, 1], [1, 2]])) [[0, 1], [1, 2]] \<and>
   finite {1::nat} \<and> hitsAll {1} [[0, 1], [1, 2]] \<and>
   card (set (petricksMethod [[0, 1], [1, 2]])) \<le> card {1::nat} \<and>
   set ` set (petrickFold [[]] [[0, 1], [1, 2]]) = {S. minimalCover S [[0, 1], [1, 2]]} \<and>
   (\<exists>r. minimizeKMapJS \<lparr>numInputs = 2, minterms = [0, 3], dontCares = None, vars = None\<rparr> = Inr r \<and>
        coveredMintermsOf
          (primeChart \<lparr>numInputs = 2, minterms = [0, 3], dontCares = None, vars = None\<rparr>)
          (essentialIndices \<lparr>numInputs = 2, minterms = [0, 3], dontCares = None, vars = None\<rparr>)
          = Inr [0, 3] \<and>
        remainingOf \<lparr>numInputs = 2, minterms = [0, 3], dontCares = None, vars = None\<rparr> [0, 3] = [] \<and>
        selectedImplicants r = essentialPrimeImplicants r)"
proof -
  let ?opts = "\<lparr>numInputs = 2, minterms = [0, 3], dontCares = None, vars = None\<rparr>"
  have ne: "\<forall>c \<in> set [[0, 1], [1, 2::nat]]. c \<noteq> []" by simp
  have pm: "petricksMethod [[0, 1], [1, 2]] = [1]" by code_simp
  have pf: "petrickFold [[]] [[0, 1], [1, 2]] = [[1], [0, 2]]" by code_simp
  have hit: "finite {1::nat}" "hitsAll {1} [[0, 1], [1, 2]]" by (simp_all add: hitsAll_def)
  have "\<not> isl (minimizeKMapJS ?opts)" by code_simp
  then obtain r where run: "minimizeKMapJS ?opts = Inr r"
    by (cases "minimizeKMapJS ?opts") auto
  have cm: "coveredMintermsOf (primeChart ?opts) (essentialIndices ?opts) = Inr [0, 3]"
    by code_simp
  have rem: "remainingOf ?opts [0, 3] = []" by code_simp
  note inst = petricks_method_selection [of "[[0, 1], [1, 2]]" ?opts r "[0, 3]"]
  from inst ne have
    a: "\<forall>c \<in> set [[0, 1], [1, 2]]. \<exists>i \<in> set c. i \<in> set (petricksMethod [[0, 1], [1, 2]])"
    and b: "petricksMethod [[0, 1], [1, 2]] \<in> set (petrickFold [[]] [[0, 1], [1, 2]])"
    and c: "\<forall>s \<in> set (petrickFold [[]] [[0, 1], [1, 2]]).
          card (set (petricksMethod [[0, 1], [1, 2]])) \<le> card (set s)"
    and d: "minimalCover (set (petricksMethod [[0, 1], [1, 2]])) [[0, 1], [1, 2]]"
    and e: "\<forall>H. finite H \<and> hitsAll H [[0, 1], [1, 2]] \<longrightarrow>
          card (set (petricksMethod [[0, 1], [1, 2]])) \<le> card H"
    by blast+
  from inst have f: "set ` set (petrickFold [[]] [[0, 1], [1, 2]])
      = {S. minimalCover S [[0, 1], [1, 2]]}" by blast
  from inst run cm rem have g: "selectedImplicants r = essentialPrimeImplicants r" by blast
  from e hit have e': "card (set (petricksMethod [[0, 1], [1, 2]])) \<le> card {1::nat}" by blast
  have a': "list_all (\<lambda>c. \<exists>i \<in> set c. i \<in> set (petricksMethod [[0, 1], [1, 2]])) [[0, 1], [1, 2]]"
    using a unfolding list_all_iff .
  have c': "list_all (\<lambda>s. card (set (petricksMethod [[0, 1], [1, 2]])) \<le> card (set s))
     (petrickFold [[]] [[0, 1], [1, 2]])"
    using c unfolding list_all_iff .
  have ne': "[] \<notin> set [[0, 1], [1, 2::nat]]" by simp
  from g run cm rem have last: "\<exists>r. minimizeKMapJS ?opts = Inr r \<and>
        coveredMintermsOf (primeChart ?opts) (essentialIndices ?opts) = Inr [0, 3] \<and>
        remainingOf ?opts [0, 3] = [] \<and>
        selectedImplicants r = essentialPrimeImplicants r" by blast
  show ?thesis
    by (intro conjI ne' pm pf a' b c' d hit e' f last)
qed

section \<open>Invariants of the combining loop\<close>

lemma collectPrimes_fold_patterns:
  "bits ` set (foldl (\<lambda>acc imp.
              if bits imp \<notin> taken \<and> \<not> list_ex (\<lambda>x. bits x = bits imp) acc
              then acc @ [imp] else acc) allPrime xs)
     = bits ` set allPrime \<union> (bits ` set xs - taken)"
proof (induction xs arbitrary: allPrime)
  case Nil
  then show ?case by simp
next
  case (Cons imp xs)
  have step: "bits ` set (if bits imp \<notin> taken \<and> \<not> list_ex (\<lambda>x. bits x = bits imp) allPrime
                         then allPrime @ [imp] else allPrime)
      = bits ` set allPrime \<union> ({bits imp} - taken)"
  proof (cases "list_ex (\<lambda>x. bits x = bits imp) allPrime")
    case True
    then obtain x where "x \<in> set allPrime" "bits x = bits imp"
      unfolding list_ex_iff by blast
    then have "bits imp \<in> bits ` set allPrime" by (metis imageI)
    with True show ?thesis by auto
  next
    case False
    then show ?thesis by auto
  qed
  show ?case
    unfolding foldl_Cons Cons.IH step by auto
qed

lemma collectPrimes_patterns:
  "bits ` set (collectPrimes gs taken allPrime) = bits ` set allPrime \<union> (patternsOf gs - taken)"
  by (simp add: collectPrimes_def collectPrimes_fold_patterns patternsOf_def implicantsOf_def)

lemma not_combined_none_taken: "\<not> anyCombinedOf gs \<Longrightarrow> takenOf gs = {}"
  by (simp add: combineRound_facts)

lemma taken_merged:
  assumes "p \<in> takenOf gs"
  shows "\<exists>a \<in> patternsOf gs. \<exists>b \<in> patternsOf gs. \<exists>c \<in> patternsOf (nextGroupsOf gs).
           combine a b = Some c \<and> (p = a \<or> p = b)"
proof -
  from assms obtain a b c where m: "(a, b, c) \<in> merges (groupPairs gs)" "p = a \<or> p = b"
    by (auto simp: combineRound_facts(2))
  then obtain ia ib where i: "(ia, ib) \<in> set (groupPairs gs)" "a = bits ia" "b = bits ib"
    "combine a b = Some c"
    by (auto simp: merges_def)
  from groupPairs_subset [OF i(1)] i have "a \<in> patternsOf gs" "b \<in> patternsOf gs"
    by (auto simp: patternsOf_def)
  moreover from m(1) have "c \<in> patternsOf (nextGroupsOf gs)"
    by (force simp: combineRound_facts(1))
  ultimately show ?thesis using i(4) m(2) by blast
qed

text \<open>A property of patterns that merging preserves holds of every pattern the loop collects.\<close>

lemma combineLoop_preserves:
  assumes closed: "\<And>a b c. P a \<Longrightarrow> combine a b = Some c \<Longrightarrow> P c"
  shows "\<forall>p \<in> patternsOf gs. P p \<Longrightarrow> \<forall>p \<in> bits ` set allPrime. P p \<Longrightarrow>
         \<forall>p \<in> bits ` set (combineLoop gs allPrime). P p"
proof (induction gs allPrime rule: combineLoop.induct)
  case (1 gs allPrime)
  let ?collected = "collectPrimes gs (takenOf gs) allPrime"
  have coll: "\<forall>p \<in> bits ` set ?collected. P p"
    using "1.prems" by (auto simp: collectPrimes_patterns)
  show ?case
  proof (cases "anyCombinedOf gs")
    case True
    have "\<forall>p \<in> patternsOf (nextGroupsOf gs). P p"
    proof
      fix c assume "c \<in> patternsOf (nextGroupsOf gs)"
      from merged_pattern [OF this] obtain a b where "a \<in> patternsOf gs" "combine a b = Some c"
        by blast
      with "1.prems"(1) closed show "P c" by blast
    qed
    from "1.IH" [OF True this coll] True show ?thesis
      by (simp add: combineLoop.simps [of gs allPrime])
  next
    case False
    with coll show ?thesis by (simp add: combineLoop.simps [of gs allPrime])
  qed
qed

lemma combineFrom_pointwise:
  "combineFrom a b d out = Some c \<Longrightarrow>
     \<exists>t. c = out @ t \<and> length t = length a \<and>
         (\<forall>i < length a. t ! i = CHR ''-'' \<or> (t ! i = a ! i \<and> at b i = Some (a ! i)))"
proof (induction a arbitrary: b d out)
  case Nil
  then show ?case by (auto split: if_splits)
next
  case (Cons ca a)
  let ?cb = "case b of [] \<Rightarrow> None | x # _ \<Rightarrow> Some x"
  have at_tl: "at (tl b) i = at b (Suc i)" for i
    by (cases b) (auto simp: at_def)
  have at0: "at b 0 = ?cb" by (cases b) (auto simp: at_def)
  show ?case
  proof (cases "Some ca = ?cb")
    case True
    with Cons.prems have rec: "combineFrom a (tl b) d (out @ [ca]) = Some c"
      by (auto simp: Let_def split: if_splits)
    from Cons.IH [OF rec] obtain t where t: "c = (out @ [ca]) @ t" "length t = length a"
      "\<forall>i < length a. t ! i = CHR ''-'' \<or> (t ! i = a ! i \<and> at (tl b) i = Some (a ! i))"
      by blast
    have "\<forall>i < length (ca # a). (ca # t) ! i = CHR ''-'' \<or>
            ((ca # t) ! i = (ca # a) ! i \<and> at b i = Some ((ca # a) ! i))"
    proof (intro allI impI)
      fix i assume "i < length (ca # a)"
      then show "(ca # t) ! i = CHR ''-'' \<or>
            ((ca # t) ! i = (ca # a) ! i \<and> at b i = Some ((ca # a) ! i))"
        using t(3) True at0 by (cases i) (auto simp: at_tl)
    qed
    with t show ?thesis by (intro exI [of _ "ca # t"]) simp
  next
    case False
    with Cons.prems have rec: "combineFrom a (tl b) (d + 1) (out @ [CHR ''-'']) = Some c"
      by (auto simp: Let_def split: if_splits)
    from Cons.IH [OF rec] obtain t where t: "c = (out @ [CHR ''-'']) @ t" "length t = length a"
      "\<forall>i < length a. t ! i = CHR ''-'' \<or> (t ! i = a ! i \<and> at (tl b) i = Some (a ! i))"
      by blast
    have "\<forall>i < length (ca # a). (CHR ''-'' # t) ! i = CHR ''-'' \<or>
            ((CHR ''-'' # t) ! i = (ca # a) ! i \<and> at b i = Some ((ca # a) ! i))"
    proof (intro allI impI)
      fix i assume "i < length (ca # a)"
      then show "(CHR ''-'' # t) ! i = CHR ''-'' \<or>
            ((CHR ''-'' # t) ! i = (ca # a) ! i \<and> at b i = Some ((ca # a) ! i))"
        using t(3) by (cases i) (auto simp: at_tl)
    qed
    with t show ?thesis by (intro exI [of _ "CHR ''-'' # t"]) simp
  qed
qed

lemma combine_pointwise:
  assumes "combine a b = Some c"
  shows "length c = length a"
    and "\<forall>i < length a. c ! i = CHR ''-'' \<or> (c ! i = a ! i \<and> at b i = Some (a ! i))"
  using combineFrom_pointwise [of a b 0 "[]" c] assms by (auto simp: combine_def)

lemma coveredBy_iff:
  "coveredBy bs m w \<longleftrightarrow>
     (\<forall>i < w. at bs i = Some (CHR ''-'') \<or> at bs i = at (toBinary m w) i)"
  by (auto simp: coveredBy_def Let_def list_all_iff)

lemma covered_after_merge_left:
  assumes "combine a b = Some c" and "coveredBy a m w"
  shows "coveredBy c m w"
  unfolding coveredBy_iff
proof (intro allI impI)
  fix i assume i: "i < w"
  from assms(2) i have a: "at a i = Some (CHR ''-'') \<or> at a i = at (toBinary m w) i"
    by (simp add: coveredBy_iff)
  note pw = combine_pointwise [OF assms(1)]
  show "at c i = Some (CHR ''-'') \<or> at c i = at (toBinary m w) i"
  proof (cases "i < length a")
    case True
    with pw a show ?thesis by (auto simp: at_def)
  next
    case False
    with pw a show ?thesis by (auto simp: at_def)
  qed
qed

lemma covered_after_merge_right:
  assumes "combine a b = Some c" and "w \<le> length a" and "coveredBy b m w"
  shows "coveredBy c m w"
  unfolding coveredBy_iff
proof (intro allI impI)
  fix i assume i: "i < w"
  from assms(3) i have b: "at b i = Some (CHR ''-'') \<or> at b i = at (toBinary m w) i"
    by (simp add: coveredBy_iff)
  note pw = combine_pointwise [OF assms(1)]
  from i assms(2) have "i < length a" by simp
  with pw b show "at c i = Some (CHR ''-'') \<or> at c i = at (toBinary m w) i"
    by (auto simp: at_def)
qed

lemma combineLoop_covers:
  "\<forall>p \<in> patternsOf gs. w \<le> length p \<Longrightarrow>
   \<exists>p \<in> patternsOf gs \<union> bits ` set allPrime. coveredBy p m w \<Longrightarrow>
   \<exists>p \<in> bits ` set (combineLoop gs allPrime). coveredBy p m w"
proof (induction gs allPrime rule: combineLoop.induct)
  case (1 gs allPrime)
  let ?collected = "collectPrimes gs (takenOf gs) allPrime"
  from "1.prems"(2) obtain p where p: "p \<in> patternsOf gs \<union> bits ` set allPrime" "coveredBy p m w"
    by blast
  show ?case
  proof (cases "anyCombinedOf gs")
    case True
    have long: "\<forall>q \<in> patternsOf (nextGroupsOf gs). w \<le> length q"
    proof
      fix c assume "c \<in> patternsOf (nextGroupsOf gs)"
      from merged_pattern [OF this] obtain a b where "a \<in> patternsOf gs" "combine a b = Some c"
        by blast
      with "1.prems"(1) combine_pointwise(1) [of a b c] show "w \<le> length c" by auto
    qed
    have "\<exists>q \<in> patternsOf (nextGroupsOf gs) \<union> bits ` set ?collected. coveredBy q m w"
    proof (cases "p \<in> takenOf gs")
      case True
      from taken_merged [OF this] obtain a b c where m: "a \<in> patternsOf gs" "b \<in> patternsOf gs"
        "c \<in> patternsOf (nextGroupsOf gs)" "combine a b = Some c" "p = a \<or> p = b"
        by blast
      from m(1) "1.prems"(1) have "w \<le> length a" by blast
      with m p(2) covered_after_merge_left [of a b c m w] covered_after_merge_right [of a b c w m]
      have "coveredBy c m w" by blast
      with m(3) show ?thesis by blast
    next
      case False
      with p(1) have "p \<in> bits ` set ?collected" by (auto simp: collectPrimes_patterns)
      with p(2) show ?thesis by blast
    qed
    from "1.IH" [OF True long this] True show ?thesis
      by (simp add: combineLoop.simps [of gs allPrime])
  next
    case False
    then have "takenOf gs = {}" by (rule not_combined_none_taken)
    with p(1) have "p \<in> bits ` set ?collected" by (auto simp: collectPrimes_patterns)
    with p(2) False show ?thesis by (auto simp: combineLoop.simps [of gs allPrime])
  qed
qed

section \<open>Binary patterns and the prime implicant chart\<close>

lemma length_binDigits: "n < 2 ^ w \<Longrightarrow> 0 < w \<Longrightarrow> length (binDigits n) \<le> w"
proof (induction n arbitrary: w rule: binDigits.induct)
  case (1 n)
  show ?case
  proof (cases "n < 2")
    case True
    with "1.prems" show ?thesis by (simp add: binDigits.simps [of n])
  next
    case False
    from "1.prems" obtain v where w: "w = Suc v" by (cases w) auto
    with "1.prems" False have "n div 2 < 2 ^ v" by auto
    moreover from False w "1.prems" have "0 < v" by (cases v) auto
    ultimately have "length (binDigits (n div 2)) \<le> v" using "1.IH" [OF False] by blast
    with False w show ?thesis by (simp add: binDigits.simps [of n])
  qed
qed

lemma set_binDigits: "set (binDigits n) \<subseteq> {CHR ''0'', CHR ''1''}"
proof (induction n rule: binDigits.induct)
  case (1 n)
  then show ?case by (cases "n < 2") (auto simp: binDigits.simps [of n])
qed

lemma length_toBinary_ge: "w \<le> length (toBinary m w)"
  by (simp add: toBinary_def padStart_def)

lemma toBinary_in_range:
  assumes "0 \<le> m" "m < 2 ^ w" "0 < w"
  shows "length (toBinary m w) = w" "set (toBinary m w) \<subseteq> {CHR ''0'', CHR ''1''}"
proof -
  from assms have "nat m < 2 ^ w"
    by (metis nat_less_iff of_nat_numeral of_nat_power)
  from length_binDigits [OF this assms(3)] assms(1)
  show "length (toBinary m w) = w"
    by (simp add: toBinary_def padStart_def toString2_def)
  from set_binDigits [of "nat m"] assms(1)
  show "set (toBinary m w) \<subseteq> {CHR ''0'', CHR ''1''}"
    by (auto simp: toBinary_def padStart_def toString2_def)
qed

lemma patternsOf_Nil [simp]: "patternsOf [] = {}"
  by (simp add: patternsOf_def implicantsOf_def)

lemma patternsOf_addInitial:
  "patternsOf (addInitial w gs m) = insert (toBinary m w) (patternsOf gs)"
proof -
  let ?ones = "countOnes (toBinary m w)"
  let ?arr = "groups_get gs ?ones @ [\<lparr>bits = toBinary m w, covered = [m]\<rparr>]"
  have "set (groups_get gs ?ones) \<subseteq> set ?arr" by auto
  from implicantsOf_groups_set [OF this] groups_get_subset [of gs ?ones]
  show ?thesis
    by (auto simp: addInitial_def Let_def patternsOf_def)
qed

lemma patternsOf_initialGroups:
  "patternsOf (initialGroups w universe) = (\<lambda>m. toBinary m w) ` set universe"
proof -
  have "patternsOf (foldl (addInitial w) gs universe)
          = patternsOf gs \<union> (\<lambda>m. toBinary m w) ` set universe" for gs
    by (induction universe arbitrary: gs) (auto simp: patternsOf_addInitial)
  from this [of "[]"] show ?thesis by (simp add: initialGroups_def)
qed

lemma set_universeOf:
  "set (universeOf opts) =
     set (minterms opts) \<union> set (case dontCares opts of None \<Rightarrow> [] | Some ds \<Rightarrow> ds)"
  by (simp add: universeOf_def mintermsOf_def dontCaresOf_def)

lemma set_mintermsOf [simp]: "set (mintermsOf opts) = set (minterms opts)"
  by (simp add: mintermsOf_def)

lemma coveredBy_own_pattern: "coveredBy (toBinary m w) m w"
  by (simp add: coveredBy_iff)

lemma uniqueByBitsFrom_member:
  "x \<in> set (uniqueByBitsFrom seen res imps) \<Longrightarrow> x \<in> set res \<or> x \<in> set imps"
  by (induction imps arbitrary: seen res) (fastforce split: if_splits)+

lemma uniqueByBitsFrom_subset:
  "set (uniqueByBitsFrom seen res imps) \<subseteq> set res \<union> set imps"
  using uniqueByBitsFrom_member by fastforce

lemma uniqueByBitsFrom_kept:
  "x \<in> set res \<Longrightarrow> x \<in> set (uniqueByBitsFrom seen res imps)"
  by (induction imps arbitrary: seen res) (fastforce split: if_splits)+

lemma uniqueByBitsFrom_keeps: "set res \<subseteq> set (uniqueByBitsFrom seen res imps)"
  using uniqueByBitsFrom_kept by fastforce

lemma uniqueByBitsFrom_patterns:
  "x \<in> set imps \<Longrightarrow> bits x \<notin> seen \<Longrightarrow>
     bits x \<in> bits ` set (uniqueByBitsFrom seen res imps)"
proof (induction imps arbitrary: seen res)
  case Nil
  then show ?case by simp
next
  case (Cons a imps)
  show ?case
  proof (cases "bits a \<in> seen")
    case True
    with Cons.prems have "x \<in> set imps" by auto
    from Cons.IH [OF this Cons.prems(2)] True show ?thesis by simp
  next
    case False
    have kept: "a \<in> set (uniqueByBitsFrom (insert (bits a) seen) (res @ [a]) imps)"
      using uniqueByBitsFrom_keeps [of "res @ [a]" "insert (bits a) seen" imps] by auto
    show ?thesis
    proof (cases "bits x = bits a")
      case True
      with kept False show ?thesis by (metis imageI uniqueByBitsFrom.simps(2))
    next
      case diff: False
      with Cons.prems have "x \<in> set imps" "bits x \<notin> insert (bits a) seen" by auto
      from Cons.IH [OF this] False show ?thesis by simp
    qed
  qed
qed

lemma uniqueByBits_patterns: "bits ` set (uniqueByBits imps) = bits ` set imps"
proof
  show "bits ` set (uniqueByBits imps) \<subseteq> bits ` set imps"
    using uniqueByBitsFrom_subset [of "{}" "[]" imps] by (auto simp: uniqueByBits_def)
  show "bits ` set imps \<subseteq> bits ` set (uniqueByBits imps)"
    using uniqueByBitsFrom_patterns [of _ imps "{}" "[]"] by (auto simp: uniqueByBits_def)
qed

lemma primesOf_nth:
  assumes "i < length (primesOf w mins allPrime)"
  shows "covered (primesOf w mins allPrime ! i)
           = expandCoverage (bits (primesOf w mins allPrime ! i)) mins w"
  using assms by (simp add: primesOf_def)

lemma primesOf_patterns: "bits ` set (primesOf w mins allPrime) = bits ` set allPrime"
proof -
  have "bits ` set (primesOf w mins allPrime) = bits ` set (uniqueByBits allPrime)"
    by (simp add: primesOf_def image_image)
  then show ?thesis by (simp add: uniqueByBits_patterns)
qed

lemma primesOf_covered_subset:
  "p \<in> set (primesOf w mins allPrime) \<Longrightarrow> set (covered p) \<subseteq> set mins"
  by (auto simp: primesOf_def expandCoverage_def)

lemma primesOf_covered_iff:
  "p \<in> set (primesOf w mins allPrime) \<Longrightarrow>
     m \<in> set (covered p) \<longleftrightarrow> m \<in> set mins \<and> coveredBy (bits p) m w"
  by (auto simp: primesOf_def expandCoverage_def)

text \<open>Every element of the universe is covered by the pattern of some prime implicant.\<close>

lemma allPrimeOf_covers:
  assumes "m \<in> set (universeOf opts)"
  shows "\<exists>p \<in> bits ` set (allPrimeOf opts). coveredBy p m (widthOf opts)"
proof -
  let ?w = "widthOf opts"
  let ?gs = "initialGroups ?w (universeOf opts)"
  have long: "\<forall>p \<in> patternsOf ?gs. ?w \<le> length p"
    by (auto simp: patternsOf_initialGroups length_toBinary_ge)
  from assms have "toBinary m ?w \<in> patternsOf ?gs"
    by (auto simp: patternsOf_initialGroups)
  with coveredBy_own_pattern [of m ?w]
  have "\<exists>p \<in> patternsOf ?gs \<union> bits ` set []. coveredBy p m ?w" by blast
  from combineLoop_covers [OF long this] show ?thesis by (simp add: allPrimeOf_def)
qed

lemma primeChart_covers:
  assumes "m \<in> set (minterms opts)"
  shows "\<exists>i < length (primeChart opts). m \<in> set (covered (primeChart opts ! i))"
proof -
  from assms have "m \<in> set (universeOf opts)" by (simp add: set_universeOf)
  from allPrimeOf_covers [OF this] obtain p where
    p: "p \<in> bits ` set (allPrimeOf opts)" "coveredBy p m (widthOf opts)" by blast
  from p(1) have "p \<in> bits ` set (primeChart opts)"
    by (simp add: primeChart_def primesOf_patterns)
  then obtain q where q: "q \<in> set (primeChart opts)" "bits q = p" by auto
  with p(2) assms have "m \<in> set (covered q)"
    using primesOf_covered_iff [of q "widthOf opts" "mintermsOf opts" "allPrimeOf opts" m]
    by (simp add: primeChart_def)
  with q(1) show ?thesis by (metis in_set_conv_nth)
qed

text \<open>What \<open>mToImps.get(m) ?? []\<close> holds after the two nested loops.\<close>

lemma mToImps_inner:
  "set (foldl (\<lambda>mp' m. mp'(m := mp' m @ [i])) mp cs m0)
     = set (mp m0) \<union> (if m0 \<in> set cs then {i} else {})"
  by (induction cs arbitrary: mp) auto

lemma mToImps_outer:
  "set (foldl (\<lambda>mp i. foldl (\<lambda>mp' m. mp'(m := mp' m @ [i])) mp (covered (primes ! i))) mp0 is m0)
     = set (mp0 m0) \<union> {i \<in> set is. m0 \<in> set (covered (primes ! i))}"
  by (induction "is" arbitrary: mp0) (auto simp: mToImps_inner)

lemma set_mToImpsOf:
  "set (mToImpsOf primes m) = {i. i < length primes \<and> m \<in> set (covered (primes ! i))}"
  by (auto simp: mToImpsOf_def mToImps_outer)

section \<open>Essential implicants and the cover\<close>

lemma set_essentialOf:
  "set (essentialOf mins mToImps) = {mToImps m ! 0 | m. m \<in> set mins \<and> length (mToImps m) = 1}"
proof -
  have "set (foldl (\<lambda>essential m.
              let imps = mToImps m in
              if length imps = 1 then setAdd essential (imps ! 0) else essential) acc mins)
        = set acc \<union> {mToImps m ! 0 | m. m \<in> set mins \<and> length (mToImps m) = 1}" for acc
    by (induction mins arbitrary: acc) (auto simp: Let_def setAdd_def)
  from this [of "[]"] show ?thesis by (simp add: essentialOf_def)
qed

lemma single_index: "length xs = 1 \<Longrightarrow> set xs = {xs ! 0}"
  by (cases xs) auto

text \<open>An essential index is the only index of the chart covering some required minterm.\<close>

lemma essentialIndices_sole:
  assumes "e \<in> set (essentialIndices opts)"
  shows "\<exists>m \<in> set (minterms opts).
           e < length (primeChart opts) \<and> m \<in> set (covered (primeChart opts ! e)) \<and>
           (\<forall>j < length (primeChart opts). j \<noteq> e \<longrightarrow> m \<notin> set (covered (primeChart opts ! j)))"
proof -
  let ?f = "mToImpsOf (primeChart opts)"
  from assms obtain m where m: "m \<in> set (minterms opts)" "length (?f m) = 1" "e = ?f m ! 0"
    by (auto simp: essentialIndices_def set_essentialOf)
  from single_index [OF m(2)] m(3) have "set (?f m) = {e}" by simp
  then have "{i. i < length (primeChart opts) \<and> m \<in> set (covered (primeChart opts ! i))} = {e}"
    by (simp add: set_mToImpsOf)
  then have "e < length (primeChart opts) \<and> m \<in> set (covered (primeChart opts ! e)) \<and>
           (\<forall>j < length (primeChart opts). j \<noteq> e \<longrightarrow> m \<notin> set (covered (primeChart opts ! j)))"
    by blast
  with m(1) show ?thesis by blast
qed

lemma essentialIndices_bound:
  "e \<in> set (essentialIndices opts) \<Longrightarrow> e < length (primeChart opts)"
  using essentialIndices_sole by blast

lemma set_chosenOf:
  "set (chosenOf essential remaining mToImps) =
     set essential \<union> (if remaining = [] then {} else set (petricksMethod (map mToImps remaining)))"
  by (simp add: chosenOf_def set_foldl_setAdd)

lemma petrick_pick_bound:
  "i \<in> set (petricksMethod (map (mToImpsOf primes) remaining)) \<Longrightarrow> i < length primes"
  using petricksMethod_subset [of "map (mToImpsOf primes) remaining"]
  by (auto simp: set_mToImpsOf)

lemma selectedIndices_bound:
  "i \<in> set (selectedIndices opts) \<Longrightarrow> i < length (primeChart opts)"
  by (auto simp: selectedIndices_def Let_def set_chosenOf essentialIndices_bound petrick_pick_bound
           split: if_splits)

text \<open>With \<open>numInputs\<close> in \<open>[2,6]\<close> the run returns a result, whatever the other inputs.\<close>

lemma minimizeKMapJS_returns:
  assumes "2 \<le> numInputs opts" "numInputs opts \<le> 6"
  shows "\<exists>r. minimizeKMapJS opts = Inr r"
proof -
  have e: "\<not> list_ex (\<lambda>ei. length (primeChart opts) \<le> ei) (essentialIndices opts)"
    by (auto simp: list_ex_iff dest!: essentialIndices_bound)
  have "\<not> list_ex (\<lambda>i. length (primeChart opts) \<le> i) (selectedIndices opts)"
    by (auto simp: list_ex_iff dest!: selectedIndices_bound)
  then have c: "\<not> list_ex (\<lambda>i. length (primeChart opts) \<le> i)
       (sort (chosenOf (essentialIndices opts)
          (remainingOf opts
             (concat (map (\<lambda>ei. covered (primeChart opts ! ei)) (essentialIndices opts))))
          (mToImpsOf (primeChart opts))))"
    by (simp add: selectedIndices_def Let_def)
  show ?thesis
    using assms e c by (simp add: minimizeKMapJS_def Let_def coveredMintermsOf_def)
qed

text \<open>The selected implicants cover the required minterms, all of them and nothing else.\<close>

lemma selected_cover:
  assumes run: "minimizeKMapJS opts = Inr r"
  shows "\<Union> (set ` covered ` set (selectedImplicants r)) = set (minterms opts)"
proof
  let ?primes = "primeChart opts"
  let ?f = "mToImpsOf ?primes"
  let ?cm = "concat (map (\<lambda>ei. covered (?primes ! ei)) (essentialIndices opts))"
  let ?rem = "remainingOf opts ?cm"
  note sel = minimizeKMapJS_result(8) [OF run]
  have idx: "set (selectedIndices opts) = set (chosenOf (essentialIndices opts) ?rem ?f)"
    by (simp add: selectedIndices_def Let_def)
  show "\<Union> (set ` covered ` set (selectedImplicants r)) \<subseteq> set (minterms opts)"
  proof
    fix m assume "m \<in> \<Union> (set ` covered ` set (selectedImplicants r))"
    then obtain i where i: "i \<in> set (selectedIndices opts)" "m \<in> set (covered (?primes ! i))"
      by (auto simp: sel)
    from selectedIndices_bound [OF i(1)] have "?primes ! i \<in> set ?primes" by simp
    then have "set (covered (?primes ! i)) \<subseteq> set (mintermsOf opts)"
      unfolding primeChart_def by (rule primesOf_covered_subset)
    with i(2) show "m \<in> set (minterms opts)" by auto
  qed
  show "set (minterms opts) \<subseteq> \<Union> (set ` covered ` set (selectedImplicants r))"
  proof
    fix m assume m: "m \<in> set (minterms opts)"
    have "\<exists>i \<in> set (selectedIndices opts). m \<in> set (covered (?primes ! i))"
    proof (cases "m \<in> set ?cm")
      case True
      then obtain ei where "ei \<in> set (essentialIndices opts)" "m \<in> set (covered (?primes ! ei))"
        by auto
      then show ?thesis by (auto simp: idx set_chosenOf)
    next
      case False
      with m have mem: "m \<in> set ?rem" by (simp add: remainingOf_def)
      then have ne: "?rem \<noteq> []" by auto
      have clauses: "\<forall>c \<in> set (map ?f ?rem). c \<noteq> []"
      proof
        fix c assume "c \<in> set (map ?f ?rem)"
        then obtain m' where m': "m' \<in> set ?rem" "c = ?f m'" by auto
        then have "m' \<in> set (minterms opts)" by (simp add: remainingOf_def)
        from primeChart_covers [OF this] have "set (?f m') \<noteq> {}"
          by (auto simp: set_mToImpsOf)
        with m'(2) show "c \<noteq> []" by auto
      qed
      from mem have "?f m \<in> set (map ?f ?rem)" by simp
      from petricksMethod_hits [OF clauses this] obtain i where
        i: "i \<in> set (?f m)" "i \<in> set (petricksMethod (map ?f ?rem))" by blast
      from i(1) have "m \<in> set (covered (?primes ! i))" by (simp add: set_mToImpsOf)
      moreover from i(2) ne have "i \<in> set (selectedIndices opts)"
        by (simp add: idx set_chosenOf)
      ultimately show ?thesis by blast
    qed
    then show "m \<in> \<Union> (set ` covered ` set (selectedImplicants r))"
      by (auto simp: sel)
  qed
qed

section \<open>Completeness of the cover\<close>

lemma inputsInRange_D:
  assumes "inputsInRange opts"
  shows "2 \<le> numInputs opts" "numInputs opts \<le> 6" "0 < widthOf opts"
    "\<forall>m \<in> set (universeOf opts). 0 \<le> m \<and> m < 2 ^ widthOf opts"
  using assms by (auto simp: inputsInRange_def list_all_iff set_universeOf widthOf_def)

lemma sorted_mintermsOf: "sorted (mintermsOf opts) \<and> distinct (mintermsOf opts)"
  by (simp add: mintermsOf_def)

text \<open>
  Claim C1. For \<open>numInputs\<close> in \<open>[2,6]\<close> and all minterms and don't-cares in
  \<open>[0, 2^numInputs)\<close>, the run returns a result, and the union of the \<open>covered\<close> arrays of
  its \<open>selectedImplicants\<close> is, as a set, the deduplicated, ascending list of minterms: no
  required minterm is missing and nothing else is covered.
\<close>

theorem selection_covers_minterms:
  assumes "inputsInRange opts"
  shows "\<exists>r. minimizeKMapJS opts = Inr r \<and>
             \<Union> (set ` covered ` set (selectedImplicants r)) = set (mintermsOf opts) \<and>
             set (mintermsOf opts) = set (minterms opts) \<and>
             sorted (mintermsOf opts) \<and> distinct (mintermsOf opts)"
proof -
  from minimizeKMapJS_returns [OF inputsInRange_D(1,2) [OF assms]]
  obtain r where run: "minimizeKMapJS opts = Inr r" by blast
  from selected_cover [OF run] sorted_mintermsOf [of opts] run show ?thesis by simp
qed

theorem selection_covers_minterms_witness:
  "inputsInRange \<lparr>numInputs = 3, minterms = [7, 1, 3, 3], dontCares = Some [5], vars = None\<rparr> \<and>
   (\<exists>r. minimizeKMapJS \<lparr>numInputs = 3, minterms = [7, 1, 3, 3], dontCares = Some [5],
                          vars = None\<rparr> = Inr r \<and>
        \<Union> (set ` covered ` set (selectedImplicants r)) = {1, 3, 7})"
proof -
  let ?opts = "\<lparr>numInputs = 3, minterms = [7, 1, 3, 3], dontCares = Some [5], vars = None\<rparr>"
  have ok: "inputsInRange ?opts" by code_simp
  from selection_covers_minterms [OF ok] ok show ?thesis by auto
qed

lemma long_pattern:
  assumes "2 ^ w \<le> n"
  shows "w < length (binDigits n)"
  using assms
proof (induction n arbitrary: w rule: binDigits.induct)
  case (1 n)
  show ?case
  proof (cases "n < 2")
    case True
    have "w = 0"
    proof (rule ccontr)
      assume "w \<noteq> 0"
      then have "(2::nat) ^ 1 \<le> 2 ^ w" by (intro power_increasing) auto
      with "1.prems" True show False by simp
    qed
    with True show ?thesis by (simp add: binDigits.simps [of n])
  next
    case False
    show ?thesis
    proof (cases w)
      case 0
      with False show ?thesis by (simp add: binDigits.simps [of n])
    next
      case (Suc v)
      with "1.prems" have "2 ^ v \<le> n div 2" by auto
      from "1.IH" [OF False this] False Suc show ?thesis
        by (simp add: binDigits.simps [of n])
    qed
  qed
qed

text \<open>
  Claim C2, as amended. For \<open>numInputs\<close> in \<open>[2,6]\<close> and a minterm \<open>m \<ge> 2^numInputs\<close>
  in the list, the run returns a complete result, and \<open>m\<close> is not left out: its pattern
  \<open>toBinary m\<close> is longer than \<open>numInputs\<close>, \<open>coveredBy\<close> compares the first
  \<open>numInputs\<close> positions only, some returned prime implicant matches \<open>m\<close>, and \<open>m\<close> is
  in the \<open>covered\<close> array of a selected implicant.
\<close>

theorem out_of_range_minterm_covered:
  assumes "2 \<le> numInputs opts" "numInputs opts \<le> 6"
    and "m \<in> set (minterms opts)" and "2 ^ widthOf opts \<le> m"
  shows "\<exists>r. minimizeKMapJS opts = Inr r \<and>
             widthOf opts < length (toBinary m (widthOf opts)) \<and>
             (\<exists>imp \<in> set (primeImplicants r). coveredBy (bits imp) m (widthOf opts)) \<and>
             (\<exists>imp \<in> set (selectedImplicants r). m \<in> set (covered imp))"
proof -
  from minimizeKMapJS_returns [OF assms(1,2)]
  obtain r where run: "minimizeKMapJS opts = Inr r" by blast
  from selected_cover [OF run] assms(3)
  have sel: "\<exists>imp \<in> set (selectedImplicants r). m \<in> set (covered imp)" by auto
  from assms(4) have nn: "0 \<le> m" by (smt (verit) zero_le_power)
  with assms(4) have "2 ^ widthOf opts \<le> nat m"
    by (metis of_nat_numeral of_nat_power le_nat_iff)
  from long_pattern [OF this] nn
  have long: "widthOf opts < length (toBinary m (widthOf opts))"
    by (simp add: toBinary_def padStart_def toString2_def)
  from primeChart_covers [OF assms(3)] obtain i where
    i: "i < length (primeChart opts)" "m \<in> set (covered (primeChart opts ! i))" by blast
  then have "primeChart opts ! i \<in> set (primeChart opts)" by simp
  with i(2) have "\<exists>imp \<in> set (primeChart opts). coveredBy (bits imp) m (widthOf opts)"
    using primesOf_covered_iff [of "primeChart opts ! i" "widthOf opts" "mintermsOf opts"
        "allPrimeOf opts" m]
    by (auto simp: primeChart_def)
  with minimizeKMapJS_result(6) [OF run] run sel long show ?thesis by auto
qed

theorem out_of_range_minterm_covered_witness:
  "(2::int) \<le> 2 \<and> (4::int) \<in> set [1, 4] \<and> (2::int) ^ 2 \<le> 4 \<and>
   (\<exists>r. minimizeKMapJS \<lparr>numInputs = 2, minterms = [1, 4], dontCares = None, vars = None\<rparr> = Inr r \<and>
        (\<exists>imp \<in> set (selectedImplicants r). 4 \<in> set (covered imp)))"
proof -
  let ?opts = "\<lparr>numInputs = 2, minterms = [1, 4], dontCares = None, vars = None\<rparr>"
  have h: "2 \<le> numInputs ?opts" "numInputs ?opts \<le> 6" "4 \<in> set (minterms ?opts)"
    "2 ^ widthOf ?opts \<le> (4::int)"
    by (simp_all add: widthOf_def)
  from out_of_range_minterm_covered [OF h] show ?thesis by auto
qed

text \<open>
  The claim as stated fails: with \<open>numInputs = 2\<close> and \<open>minterms = [4]\<close> the pattern
  \<open>100\<close> is generated, it matches \<open>4\<close>, and \<open>4\<close> is in the \<open>covered\<close> array of the
  selected implicant.
\<close>

theorem out_of_range_minterm_counterexample:
  "(2::int) ^ 2 \<le> 4 \<and>
   toBinary 4 2 = ''100'' \<and> coveredBy ''100'' 4 2 \<and>
   map_sum id selectedImplicants
     (minimizeKMapJS \<lparr>numInputs = 2, minterms = [4], dontCares = None, vars = None\<rparr>)
     = Inr [\<lparr>bits = ''100'', covered = [4]\<rparr>]"
  by code_simp

section \<open>Essential prime implicants\<close>

lemma nth_primeChart_other:
  assumes "p \<in> set (primeChart opts)" and "p \<noteq> primeChart opts ! e"
  shows "\<exists>j < length (primeChart opts). j \<noteq> e \<and> p = primeChart opts ! j"
proof -
  from assms(1) obtain j where "j < length (primeChart opts)" "p = primeChart opts ! j"
    by (metis in_set_conv_nth)
  with assms(2) show ?thesis by auto
qed

text \<open>
  Claim C5. For \<open>numInputs\<close> in \<open>[2,6]\<close> and all minterms and don't-cares in
  \<open>[0, 2^numInputs)\<close>, every implicant of the returned \<open>essentialPrimeImplicants\<close> covers
  a required minterm that no other returned prime implicant covers.
\<close>

theorem essential_implicants_sole_cover:
  assumes "inputsInRange opts"
  shows "\<exists>r. minimizeKMapJS opts = Inr r \<and>
           (\<forall>e \<in> set (essentialPrimeImplicants r).
              \<exists>m \<in> set (mintermsOf opts).
                 m \<in> set (covered e) \<and>
                 (\<forall>p \<in> set (primeImplicants r). p \<noteq> e \<longrightarrow> m \<notin> set (covered p)))"
proof -
  from minimizeKMapJS_returns [OF inputsInRange_D(1,2) [OF assms]]
  obtain r where run: "minimizeKMapJS opts = Inr r" by blast
  note shape = minimizeKMapJS_result(6,7) [OF run]
  have "\<exists>m \<in> set (mintermsOf opts).
           m \<in> set (covered e) \<and>
           (\<forall>p \<in> set (primeImplicants r). p \<noteq> e \<longrightarrow> m \<notin> set (covered p))"
    if "e \<in> set (essentialPrimeImplicants r)" for e
  proof -
    from that shape(2) obtain ei where ei: "ei \<in> set (essentialIndices opts)"
      "e = primeChart opts ! ei" by auto
    from essentialIndices_sole [OF ei(1)] obtain m where m: "m \<in> set (minterms opts)"
      "m \<in> set (covered (primeChart opts ! ei))"
      "\<forall>j < length (primeChart opts). j \<noteq> ei \<longrightarrow> m \<notin> set (covered (primeChart opts ! j))"
      by blast
    have "\<forall>p \<in> set (primeImplicants r). p \<noteq> e \<longrightarrow> m \<notin> set (covered p)"
      using nth_primeChart_other [of _ opts ei] m(3) ei(2) shape(1) by metis
    with m(1,2) ei(2) show ?thesis by auto
  qed
  with run show ?thesis by blast
qed

theorem essential_implicants_sole_cover_witness:
  "inputsInRange \<lparr>numInputs = 3, minterms = [0, 1, 5, 7], dontCares = Some [3], vars = None\<rparr> \<and>
   (\<exists>r. minimizeKMapJS \<lparr>numInputs = 3, minterms = [0, 1, 5, 7], dontCares = Some [3],
                          vars = None\<rparr> = Inr r \<and>
        essentialPrimeImplicants r \<noteq> [] \<and>
        (\<forall>e \<in> set (essentialPrimeImplicants r).
              \<exists>m \<in> {0, 1, 5, 7}.
                 m \<in> set (covered e) \<and>
                 (\<forall>p \<in> set (primeImplicants r). p \<noteq> e \<longrightarrow> m \<notin> set (covered p))))"
proof -
  let ?opts = "\<lparr>numInputs = 3, minterms = [0, 1, 5, 7], dontCares = Some [3], vars = None\<rparr>"
  have ok: "inputsInRange ?opts" by code_simp
  have ne: "essentialPrimeImplicants (projr (minimizeKMapJS ?opts)) \<noteq> []" by code_simp
  from essential_implicants_sole_cover [OF ok] obtain r where
    r: "minimizeKMapJS ?opts = Inr r"
     "\<forall>e \<in> set (essentialPrimeImplicants r).
              \<exists>m \<in> set (mintermsOf ?opts).
                 m \<in> set (covered e) \<and>
                 (\<forall>p \<in> set (primeImplicants r). p \<noteq> e \<longrightarrow> m \<notin> set (covered p))"
    by blast
  from r(1) ne have "essentialPrimeImplicants r \<noteq> []" by simp
  moreover have "set (mintermsOf ?opts) = {0, 1, 5, 7}" by auto
  ultimately show ?thesis using ok r by auto
qed

section \<open>Well-formed patterns and the number of rounds\<close>

lemma wellFormed_combine:
  assumes "wellFormed w a" and "combine a b = Some c"
  shows "wellFormed w c"
proof -
  note pw = combine_pointwise [OF assms(2)]
  have "x \<in> {CHR ''0'', CHR ''1'', CHR ''-''}" if "x \<in> set c" for x
  proof -
    from that obtain i where i: "i < length c" "x = c ! i" by (metis in_set_conv_nth)
    with pw have x: "x = CHR ''-'' \<or> x = a ! i" "i < length a" by auto
    then have "a ! i \<in> set a" by simp
    with assms(1) have "a ! i \<in> {CHR ''0'', CHR ''1'', CHR ''-''}"
      unfolding wellFormed_def by blast
    with x(1) show ?thesis by auto
  qed
  with pw(1) assms(1) show ?thesis by (auto simp: wellFormed_def)
qed

lemma allPrimeOf_wellFormed:
  assumes "inputsInRange opts"
  shows "\<forall>p \<in> bits ` set (allPrimeOf opts). wellFormed (widthOf opts) p"
proof -
  let ?w = "widthOf opts"
  note range = inputsInRange_D [OF assms]
  have init: "\<forall>p \<in> patternsOf (initialGroups ?w (universeOf opts)). wellFormed ?w p"
  proof
    fix p assume "p \<in> patternsOf (initialGroups ?w (universeOf opts))"
    then obtain m where m: "m \<in> set (universeOf opts)" "p = toBinary m ?w"
      by (auto simp: patternsOf_initialGroups)
    with range(4) have "0 \<le> m" "m < 2 ^ ?w" by auto
    from toBinary_in_range [OF this range(3)] m(2) show "wellFormed ?w p"
      by (auto simp: wellFormed_def)
  qed
  have none: "\<forall>p \<in> bits ` set []. wellFormed ?w p" by simp
  from combineLoop_preserves [where P = "wellFormed ?w", OF wellFormed_combine init none]
  show ?thesis by (simp add: allPrimeOf_def)
qed

text \<open>
  Claim C3, as amended. For \<open>numInputs\<close> in \<open>[2,6]\<close> and all minterms and don't-cares in
  \<open>[0, 2^numInputs)\<close>, the run returns a result in which every \<open>bits\<close> string of
  \<open>primeImplicants\<close>, \<open>essentialPrimeImplicants\<close> and \<open>selectedImplicants\<close> has length
  exactly \<open>numInputs\<close> and consists of the characters \<open>0\<close>, \<open>1\<close> and \<open>-\<close> only.
\<close>

theorem bits_well_formed:
  assumes "inputsInRange opts"
  shows "\<exists>r. minimizeKMapJS opts = Inr r \<and>
           (\<forall>imp \<in> set (primeImplicants r) \<union> set (essentialPrimeImplicants r)
                   \<union> set (selectedImplicants r).
              int (length (bits imp)) = numInputs opts \<and>
              set (bits imp) \<subseteq> {CHR ''0'', CHR ''1'', CHR ''-''})"
proof -
  note range = inputsInRange_D [OF assms]
  from minimizeKMapJS_returns [OF range(1,2)]
  obtain r where run: "minimizeKMapJS opts = Inr r" by blast
  note shape = minimizeKMapJS_result [OF run]
  have chart: "wellFormed (widthOf opts) (bits p)" if "p \<in> set (primeChart opts)" for p
  proof -
    from that have "bits p \<in> bits ` set (allPrimeOf opts)"
      by (metis imageI primeChart_def primesOf_patterns)
    with allPrimeOf_wellFormed [OF assms] show ?thesis by blast
  qed
  have ess: "set (essentialPrimeImplicants r) \<subseteq> set (primeChart opts)"
    using shape(4,7) by auto
  have sel: "set (selectedImplicants r) \<subseteq> set (primeChart opts)"
    using shape(5,8) by auto
  have w: "int (widthOf opts) = numInputs opts" using range(1) by (simp add: widthOf_def)
  have "int (length (bits imp)) = numInputs opts \<and>
        set (bits imp) \<subseteq> {CHR ''0'', CHR ''1'', CHR ''-''}"
    if "imp \<in> set (primeImplicants r) \<union> set (essentialPrimeImplicants r)
                   \<union> set (selectedImplicants r)" for imp
  proof -
    from that ess sel shape(6) have "imp \<in> set (primeChart opts)" by auto
    from chart [OF this] w show ?thesis by (simp add: wellFormed_def)
  qed
  with run show ?thesis by blast
qed

theorem bits_well_formed_witness:
  "inputsInRange \<lparr>numInputs = 3, minterms = [0, 1, 5, 7], dontCares = Some [3], vars = None\<rparr> \<and>
   (\<exists>r. minimizeKMapJS \<lparr>numInputs = 3, minterms = [0, 1, 5, 7], dontCares = Some [3],
                          vars = None\<rparr> = Inr r \<and>
        selectedImplicants r \<noteq> [] \<and>
        (\<forall>imp \<in> set (primeImplicants r) \<union> set (essentialPrimeImplicants r)
                   \<union> set (selectedImplicants r).
              int (length (bits imp)) = 3 \<and>
              set (bits imp) \<subseteq> {CHR ''0'', CHR ''1'', CHR ''-''}))"
proof -
  let ?opts = "\<lparr>numInputs = 3, minterms = [0, 1, 5, 7], dontCares = Some [3], vars = None\<rparr>"
  have ok: "inputsInRange ?opts" by code_simp
  have ne: "selectedImplicants (projr (minimizeKMapJS ?opts)) \<noteq> []" by code_simp
  from bits_well_formed [OF ok] obtain r where
    r: "minimizeKMapJS ?opts = Inr r"
      "\<forall>imp \<in> set (primeImplicants r) \<union> set (essentialPrimeImplicants r)
                   \<union> set (selectedImplicants r).
              int (length (bits imp)) = numInputs ?opts \<and>
              set (bits imp) \<subseteq> {CHR ''0'', CHR ''1'', CHR ''-''}"
    by blast
  from r(1) ne have "selectedImplicants r \<noteq> []" by simp
  with ok r show ?thesis by auto
qed

text \<open>
  The claim as stated fails on an accepted input with a minterm out of range: with
  \<open>numInputs = 2\<close> and \<open>minterms = [4]\<close> the returned prime implicant has the
  three-character pattern \<open>100\<close>.
\<close>

theorem bits_well_formed_counterexample:
  "map_sum id (map bits \<circ> primeImplicants)
     (minimizeKMapJS \<lparr>numInputs = 2, minterms = [4], dontCares = None, vars = None\<rparr>)
     = Inr [''100''] \<and> length ''100'' = 3"
  by code_simp

lemma mergingRounds_le_maxConcrete: "mergingRounds gs \<le> maxConcrete gs"
proof (induction gs rule: mergingRounds.induct)
  case (1 gs)
  show ?case
  proof (cases "anyCombinedOf gs")
    case True
    from "1.IH" [OF True] maxConcrete_decreases [OF True] True show ?thesis
      by (simp add: mergingRounds.simps [of gs])
  next
    case False
    then show ?thesis by (simp add: mergingRounds.simps [of gs])
  qed
qed

lemma combineLoopWithin_enough:
  "mergingRounds gs \<le> n \<Longrightarrow> combineLoopWithin n gs allPrime = Some (combineLoop gs allPrime)"
proof (induction n arbitrary: gs allPrime)
  case 0
  then have "\<not> anyCombinedOf gs" by (auto simp: mergingRounds.simps [of gs] split: if_splits)
  then show ?case by (simp add: combineLoop.simps [of gs allPrime])
next
  case (Suc n)
  show ?case
  proof (cases "anyCombinedOf gs")
    case True
    with Suc.prems have "mergingRounds (nextGroupsOf gs) \<le> n"
      by (simp add: mergingRounds.simps [of gs])
    from Suc.IH [OF this] True show ?thesis by (simp add: combineLoop.simps [of gs allPrime])
  next
    case False
    then show ?thesis by (simp add: combineLoop.simps [of gs allPrime])
  qed
qed

lemma combineLoopWithin_short:
  "n < mergingRounds gs \<Longrightarrow> combineLoopWithin n gs allPrime = None"
proof (induction n arbitrary: gs allPrime)
  case 0
  then have "anyCombinedOf gs" by (auto simp: mergingRounds.simps [of gs] split: if_splits)
  then show ?case by simp
next
  case (Suc n)
  then have any: "anyCombinedOf gs" by (auto simp: mergingRounds.simps [of gs] split: if_splits)
  with Suc.prems have "n < mergingRounds (nextGroupsOf gs)"
    by (simp add: mergingRounds.simps [of gs])
  from Suc.IH [OF this] any show ?case by simp
qed

lemma concreteCount_le_length: "concreteCount p \<le> length p"
  by (simp add: concreteCount_def)

lemma maxConcrete_initial:
  assumes "inputsInRange opts"
  shows "maxConcrete (initialGroups (widthOf opts) (universeOf opts)) \<le> widthOf opts"
proof -
  let ?w = "widthOf opts"
  note range = inputsInRange_D [OF assms]
  have "concreteCount p \<le> ?w" if "p \<in> patternsOf (initialGroups ?w (universeOf opts))" for p
  proof -
    from that obtain m where m: "m \<in> set (universeOf opts)" "p = toBinary m ?w"
      by (auto simp: patternsOf_initialGroups)
    with range(4) have "0 \<le> m" "m < 2 ^ ?w" by auto
    from toBinary_in_range(1) [OF this range(3)] m(2) concreteCount_le_length [of p]
    show ?thesis by simp
  qed
  then show ?thesis by (auto simp: maxConcrete_def)
qed

text \<open>
  Claim C7, as amended. The combining loop terminates on whatever groups it starts from: a
  budget of as many merging rounds as the largest number of concrete characters in a
  pattern suffices, because a merge keeps the length of a pattern and turns one concrete
  character into \<open>-\<close>. When \<open>numInputs\<close> is in \<open>[2,6]\<close> and all minterms and don't-cares
  are in \<open>[0, 2^numInputs)\<close>, the patterns have \<open>numInputs\<close> positions and the loop runs at
  most \<open>numInputs\<close> merging rounds.
\<close>

theorem combining_loop_rounds:
  "(combine a b = Some c \<longrightarrow> length c = length a \<and> concreteCount c + 1 = concreteCount a) \<and>
   mergingRounds gs \<le> maxConcrete gs \<and>
   combineLoopWithin (maxConcrete gs) gs allPrime = Some (combineLoop gs allPrime) \<and>
   (inputsInRange opts \<longrightarrow>
      mergingRounds (initialGroups (widthOf opts) (universeOf opts)) \<le> widthOf opts \<and>
      combineLoopWithin (widthOf opts) (initialGroups (widthOf opts) (universeOf opts)) []
        = Some (allPrimeOf opts))"
proof (intro conjI impI)
  assume "combine a b = Some c"
  from combine_Some [OF this]
  show "length c = length a" "concreteCount c + 1 = concreteCount a" by simp_all
next
  show "mergingRounds gs \<le> maxConcrete gs" by (rule mergingRounds_le_maxConcrete)
  then show "combineLoopWithin (maxConcrete gs) gs allPrime = Some (combineLoop gs allPrime)"
    by (rule combineLoopWithin_enough)
next
  assume ok: "inputsInRange opts"
  let ?gs = "initialGroups (widthOf opts) (universeOf opts)"
  from mergingRounds_le_maxConcrete [of ?gs] maxConcrete_initial [OF ok]
  show le: "mergingRounds ?gs \<le> widthOf opts" by simp
  from combineLoopWithin_enough [OF le]
  show "combineLoopWithin (widthOf opts) ?gs [] = Some (allPrimeOf opts)"
    by (simp add: allPrimeOf_def)
qed

theorem combining_loop_rounds_witness:
  "combine ''10-1'' ''11-1'' = Some ''1--1'' \<and>
   length ''1--1'' = length ''10-1'' \<and> concreteCount ''1--1'' + 1 = concreteCount ''10-1'' \<and>
   inputsInRange \<lparr>numInputs = 2, minterms = [0, 1, 2, 3], dontCares = None, vars = None\<rparr> \<and>
   mergingRounds (initialGroups 2 [0, 1, 2, 3]) = 2 \<and>
   mergingRounds (initialGroups
      (widthOf \<lparr>numInputs = 2, minterms = [0, 1, 2, 3], dontCares = None, vars = None\<rparr>)
      (universeOf \<lparr>numInputs = 2, minterms = [0, 1, 2, 3], dontCares = None, vars = None\<rparr>))
     \<le> widthOf \<lparr>numInputs = 2, minterms = [0, 1, 2, 3], dontCares = None, vars = None\<rparr>"
proof -
  let ?opts = "\<lparr>numInputs = 2, minterms = [0, 1, 2, 3], dontCares = None, vars = None\<rparr>"
  have c: "combine ''10-1'' ''11-1'' = Some ''1--1''" by code_simp
  have ok: "inputsInRange ?opts" by code_simp
  have two: "mergingRounds (initialGroups 2 [0, 1, 2, 3]) = 2" by code_simp
  from combining_loop_rounds [of "''10-1''" "''11-1''" "''1--1''" "[]" "[]" ?opts] c ok two
  show ?thesis by blast
qed

text \<open>
  The claim as stated fails on an accepted input with minterms out of range: with
  \<open>numInputs = 2\<close> and the minterms \<open>8, \<dots>, 15\<close> the patterns have four characters, the
  loop merges in three rounds, and a budget of two rounds is not enough.
\<close>

theorem combining_loop_rounds_counterexample:
  "mergingRounds
     (initialGroups
        (widthOf \<lparr>numInputs = 2, minterms = [8, 9, 10, 11, 12, 13, 14, 15], dontCares = None,
                  vars = None\<rparr>)
        (universeOf \<lparr>numInputs = 2, minterms = [8, 9, 10, 11, 12, 13, 14, 15], dontCares = None,
                     vars = None\<rparr>)) = 3 \<and>
   combineLoopWithin 2
     (initialGroups
        (widthOf \<lparr>numInputs = 2, minterms = [8, 9, 10, 11, 12, 13, 14, 15], dontCares = None,
                  vars = None\<rparr>)
        (universeOf \<lparr>numInputs = 2, minterms = [8, 9, 10, 11, 12, 13, 14, 15], dontCares = None,
                     vars = None\<rparr>)) [] = None"
  by code_simp

end
